theory Spec2Isabelle
  imports Complex_Main "HOL-Library.AList"
begin

section \<open>JavaScript numbers\<close>

text \<open>
  All quantities of \<^verbatim>\<open>src/src/main.ts\<close> are JavaScript numbers: IEEE 754 binary64
  values. A finite number is modelled by the real it denotes (\<open>Fin\<close>), and the three
  special values are kept as constructors, because the allocator divides by a
  caller-supplied strength and JavaScript answers a division by zero or an overflow with
  \<open>Infinity\<close> or \<open>NaN\<close> instead of raising.

  Every sum, product and quotient of two finite numbers is rounded to binary64 by
  \<open>fl\<close>: to the nearest multiple of the quantum \<open>2 powi (e - 52)\<close> of its binade, a tie
  to the even multiple, with gradual underflow (the exponent stops at \<open>-1022\<close>) and with
  overflow to an infinity when the rounded magnitude reaches \<open>2 ^ 1024\<close>. One
  idealisation is left: the two zeros of the language are one (\<open>Fin 0\<close>, read as \<open>+0\<close>).
  \<open>Fin\<close> can hold any real; a statement about every \<open>Fin x\<close> covers the binary64 values,
  and the operations return binary64 values whatever their arguments.
\<close>

datatype jsnum = Fin real | PInf | NInf | NaN

text \<open>
  The exponent of the binade of \<open>a > 0\<close>: the integer \<open>e\<close> with
  \<open>2 powi e \<le> a < 2 powi (e + 1)\<close>, kept between \<open>-1022\<close> (below, the numbers are
  subnormal) and \<open>1024\<close> (from there on, \<open>fl\<close> overflows).
\<close>

function expo_up :: "real \<Rightarrow> int \<Rightarrow> int" where
  "expo_up a e = (if 2 \<le> a \<and> e < 1024 then expo_up (a / 2) (e + 1) else e)"
  by pat_completeness auto
termination
  by (relation "measure (\<lambda>(a, e). nat (1024 - e))") auto

function expo_down :: "real \<Rightarrow> int \<Rightarrow> int" where
  "expo_down a e = (if a < 1 \<and> - 1022 < e then expo_down (a * 2) (e - 1) else e)"
  by pat_completeness auto
termination
  by (relation "measure (\<lambda>(a, e). nat (e + 1022))") auto

definition exponent :: "real \<Rightarrow> int" where
  "exponent a = (if 1 \<le> a then expo_up a 0 else expo_down a 0)"

text \<open>Rounding to the nearest integer, a tie to the even one.\<close>

definition rne :: "real \<Rightarrow> int" where
  "rne m = (if m - of_int \<lfloor>m\<rfloor> < 1 / 2 then \<lfloor>m\<rfloor>
            else if 1 / 2 < m - of_int \<lfloor>m\<rfloor> then \<lfloor>m\<rfloor> + 1
            else if even \<lfloor>m\<rfloor> then \<lfloor>m\<rfloor> else \<lfloor>m\<rfloor> + 1)"

text \<open>The binary64 value of the real \<open>x\<close>: what an operation whose exact result is \<open>x\<close> returns.\<close>

definition fl :: "real \<Rightarrow> jsnum" where
  "fl x =
     (if x = 0 then Fin 0
      else let q = 2 powi (exponent \<bar>x\<bar> - 52);
               y = of_int (rne (\<bar>x\<bar> / q)) * q
           in if 2 ^ 1024 \<le> y then (if 0 < x then PInf else NInf)
              else Fin (if 0 < x then y else - y))"

fun js_neg :: "jsnum \<Rightarrow> jsnum" where
  "js_neg (Fin x) = Fin (- x)"
| "js_neg PInf = NInf"
| "js_neg NInf = PInf"
| "js_neg NaN = NaN"

fun js_add :: "jsnum \<Rightarrow> jsnum \<Rightarrow> jsnum" where
  "js_add (Fin x) (Fin y) = fl (x + y)"
| "js_add NaN b = NaN"
| "js_add a NaN = NaN"
| "js_add PInf NInf = NaN"
| "js_add NInf PInf = NaN"
| "js_add PInf b = PInf"
| "js_add NInf b = NInf"
| "js_add a PInf = PInf"
| "js_add a NInf = NInf"

definition js_sub :: "jsnum \<Rightarrow> jsnum \<Rightarrow> jsnum" where
  "js_sub a b = js_add a (js_neg b)"

text \<open>The sign of a number that is not \<open>NaN\<close>: \<open>-1\<close>, \<open>0\<close> or \<open>1\<close>.\<close>

fun js_sgn :: "jsnum \<Rightarrow> int" where
  "js_sgn (Fin x) = (if x < 0 then - 1 else if x = 0 then 0 else 1)"
| "js_sgn PInf = 1"
| "js_sgn NInf = - 1"
| "js_sgn NaN = 0"

definition js_inf :: "int \<Rightarrow> jsnum" where
  "js_inf s = (if s < 0 then NInf else PInf)"

fun js_mul :: "jsnum \<Rightarrow> jsnum \<Rightarrow> jsnum" where
  "js_mul (Fin x) (Fin y) = fl (x * y)"
| "js_mul NaN b = NaN"
| "js_mul a NaN = NaN"
| "js_mul a b = (if js_sgn a * js_sgn b = 0 then NaN else js_inf (js_sgn a * js_sgn b))"

fun js_div :: "jsnum \<Rightarrow> jsnum \<Rightarrow> jsnum" where
  "js_div (Fin x) (Fin y) =
     (if y \<noteq> 0 then fl (x / y) else if x = 0 then NaN else js_inf (js_sgn (Fin x)))"
| "js_div NaN b = NaN"
| "js_div a NaN = NaN"
| "js_div (Fin x) b = Fin 0"
| "js_div a (Fin y) = js_inf (js_sgn a * (if y < 0 then - 1 else 1))"
| "js_div a b = NaN"

text \<open>\<^verbatim>\<open>a > b\<close>: false as soon as one side is \<open>NaN\<close>.\<close>

fun js_gt :: "jsnum \<Rightarrow> jsnum \<Rightarrow> bool" where
  "js_gt (Fin x) (Fin y) = (x > y)"
| "js_gt NaN b = False"
| "js_gt a NaN = False"
| "js_gt PInf b = (b \<noteq> PInf)"
| "js_gt a NInf = (a \<noteq> NInf)"
| "js_gt a b = False"

text \<open>\<^verbatim>\<open>Math.max(a, b)\<close>: \<open>NaN\<close> as soon as one argument is \<open>NaN\<close>.\<close>

definition Math_max :: "jsnum \<Rightarrow> jsnum \<Rightarrow> jsnum" where
  "Math_max a b = (if a = NaN \<or> b = NaN then NaN else if js_gt b a then b else a)"

fun Math_floor :: "jsnum \<Rightarrow> jsnum" where
  "Math_floor (Fin x) = Fin (of_int \<lfloor>x\<rfloor>)"
| "Math_floor a = a"

text \<open>
  \<^verbatim>\<open>Math.floor\<close> and \<^verbatim>\<open>Math.round\<close> are exact: the integers they return for a
  binary64 argument are binary64 values. \<^verbatim>\<open>Math.round\<close> rounds to the nearest integer, a
  tie towards \<open>+Infinity\<close>.
\<close>

fun Math_round :: "jsnum \<Rightarrow> jsnum" where
  "Math_round (Fin x) = Fin (of_int \<lfloor>x + 1 / 2\<rfloor>)"
| "Math_round a = a"

text \<open>
  \<^verbatim>\<open>a || b\<close> on a number \<open>a\<close>: the falsy numbers are zero and \<open>NaN\<close>. The
  left operand may also be \<^verbatim>\<open>undefined\<close> (a missing key), which is falsy too.
  \<^verbatim>\<open>Number(v)\<close> is the identity on a number and is not written in the model.
\<close>

definition falsy :: "jsnum \<Rightarrow> bool" where
  "falsy a = (a = Fin 0 \<or> a = NaN)"

definition js_or :: "jsnum \<Rightarrow> jsnum \<Rightarrow> jsnum" where
  "js_or a b = (if falsy a then b else a)"

definition js_or_undefined :: "jsnum option \<Rightarrow> jsnum \<Rightarrow> jsnum" where
  "js_or_undefined a b = (case a of None \<Rightarrow> b | Some v \<Rightarrow> js_or v b)"

section \<open>Data model\<close>

text \<open>
  \<^verbatim>\<open>Record<number, number>\<close>: the entries of the object in insertion order. Writing
  an existing key keeps its place and replaces its value, a new key goes to the end
  (\<open>AList.update\<close>). A JavaScript engine enumerates integer-like keys first and in
  ascending order; that order is not modelled, and nothing below depends on it but
  through the list itself.
\<close>

type_synonym tablets = "(jsnum \<times> jsnum) list"

record Segment =
  id' :: nat
  days :: jsnum
  frequency :: string
  tablets :: tablets

datatype Mode = Mg | Tablet

record AutoConfig =
  startDose :: jsnum
  stepDays :: jsnum
  mode :: Mode
  stepMg :: jsnum
  stepStrength :: jsnum
  stepTablets :: jsnum
  lastRemainder :: "jsnum option"

datatype Medication = Prednisolone | Prednisone | Dexamethasone

text \<open>
  \<open>strengths\<close> is a reference to an array of numbers: an index into the store
  \<open>arrays\<close> below. The other objects are held by value: \<^verbatim>\<open>createSegment\<close> copies
  the tablets it is given, and no two segments share one.
\<close>

record AppState =
  medication :: Medication
  useDates :: bool
  startDate :: string
  strengths :: nat
  customStrength :: string
  segments :: "Segment list"
  auto :: AutoConfig
  handoutReady :: bool

text \<open>
  The module's variables: the number arrays allocated so far (a reference is the
  position of its array), the counter \<^verbatim>\<open>segmentId\<close> and \<^verbatim>\<open>state\<close>.
\<close>

record Globals =
  arrays :: "jsnum list list"
  segmentId :: nat
  state :: AppState

section \<open>The functions of the source\<close>

text \<open>\<^verbatim>\<open>createSegment\<close> (lines 74 to 89): returns the segment and the counter after \<^verbatim>\<open>segmentId++\<close>.\<close>

definition createSegment :: "nat \<Rightarrow> jsnum \<Rightarrow> string \<Rightarrow> tablets \<Rightarrow> Segment \<times> nat" where
  "createSegment sid d f t = (\<lparr>id' = sid, days = d, frequency = f, tablets = t\<rparr>, Suc sid)"

text \<open>
  \<^verbatim>\<open>new Set(...)\<close> keeps the first occurrence of each value, in the order of
  insertion.
\<close>

fun uniq :: "jsnum list \<Rightarrow> jsnum list" where
  "uniq [] = []"
| "uniq (x # xs) = x # uniq (filter (\<lambda>y. y \<noteq> x) xs)"

text \<open>
  \<^verbatim>\<open>Array.prototype.sort\<close> with a comparator: the sort is stable, so an element moves
  in front of an earlier one only where the comparator is positive on (earlier, later).
\<close>

fun sort_insert :: "(jsnum \<Rightarrow> jsnum \<Rightarrow> jsnum) \<Rightarrow> jsnum \<Rightarrow> jsnum list \<Rightarrow> jsnum list" where
  "sort_insert cmp x [] = [x]"
| "sort_insert cmp x (y # ys) =
     (if js_gt (cmp y x) (Fin 0) then x # y # ys else y # sort_insert cmp x ys)"

definition array_sort :: "(jsnum \<Rightarrow> jsnum \<Rightarrow> jsnum) \<Rightarrow> jsnum list \<Rightarrow> jsnum list" where
  "array_sort cmp xs = foldl (\<lambda>acc x. sort_insert cmp x acc) [] xs"

text \<open>The body of the inner \<^verbatim>\<open>forEach\<close> of \<^verbatim>\<open>normalizeStrengths\<close> (lines 98 to 102).\<close>

definition nextTablets :: "jsnum list \<Rightarrow> tablets \<Rightarrow> tablets" where
  "nextTablets unique old =
     foldl (\<lambda>nt strength. AList.update strength (js_or_undefined (map_of old strength) (Fin 0)) nt)
       [] unique"

text \<open>
  \<^verbatim>\<open>normalizeStrengths\<close> (lines 91 to 104). \<^verbatim>\<open>Array.from\<close> allocates a new array,
  \<^verbatim>\<open>sort\<close> rearranges that new array in place, and \<^verbatim>\<open>state.strengths\<close> is set to
  refer to it.
\<close>

definition normalizeStrengths :: "Globals \<Rightarrow> Globals" where
  "normalizeStrengths g =
     (let st = state g;
          unique = length (arrays g);
          h1 = arrays g @ [uniq (filter (\<lambda>v. v \<noteq> NaN) (arrays g ! strengths st))];
          h2 = h1[unique := array_sort (\<lambda>a b. js_sub b a) (h1 ! unique)]
      in g\<lparr>arrays := h2,
           state := st\<lparr>strengths := unique,
                       segments := map (\<lambda>segment. segment\<lparr>tablets := nextTablets (h2 ! unique) (tablets segment)\<rparr>)
                                     (segments st)\<rparr>\<rparr>)"

text \<open>\<^verbatim>\<open>totalDose\<close> (lines 123 to 127).\<close>

definition totalDose :: "tablets \<Rightarrow> jsnum" where
  "totalDose t = foldl (\<lambda>sum (strength, count). js_add sum (js_mul strength (js_or count (Fin 0)))) (Fin 0) t"

text \<open>
  \<^verbatim>\<open>allocateTablets\<close> (lines 175 to 187). The callback of \<^verbatim>\<open>forEach\<close> works on the
  pair of the two variables it assigns, \<^verbatim>\<open>tablets\<close> and \<^verbatim>\<open>remaining\<close>. The array is
  only read.
\<close>

definition allocate_step :: "tablets \<times> jsnum \<Rightarrow> jsnum \<Rightarrow> tablets \<times> jsnum" where
  "allocate_step acc strength =
     (let remaining = snd acc;
          rawCount = js_div remaining strength;
          count = Math_max (Fin 0) (js_div (Math_floor (js_mul rawCount (Fin 2))) (Fin 2));
          tablets1 = AList.update strength count (fst acc);
          remaining1 = js_sub remaining (js_mul count strength);
          remaining2 = js_div (Math_round (js_mul remaining1 (Fin 100))) (Fin 100)
      in (tablets1, remaining2))"

definition allocateTablets :: "jsnum \<Rightarrow> jsnum list \<Rightarrow> tablets \<times> jsnum" where
  "allocateTablets total' strengths' = foldl allocate_step ([], total') strengths'"

text \<open>The closure \<^verbatim>\<open>decrement\<close> of \<^verbatim>\<open>generateAutoSchedule\<close> (lines 196 to 203).\<close>

definition decrement :: "AutoConfig \<Rightarrow> jsnum" where
  "decrement a =
     (if mode a = Mg then Math_max (Fin 0) (js_or (stepMg a) (Fin 0))
      else let strength = js_or (stepStrength a) (Fin 0);
               count = js_or (stepTablets a) (Fin 0)
           in js_mul strength count)"

text \<open>
  The \<^verbatim>\<open>while\<close> loop of \<^verbatim>\<open>generateAutoSchedule\<close> (lines 207 to 213), on the variables
  it assigns: \<^verbatim>\<open>dose\<close>, \<^verbatim>\<open>guard\<close>, \<^verbatim>\<open>segmentId\<close>, \<^verbatim>\<open>segments\<close> and
  \<^verbatim>\<open>remainder\<close>. The array of strengths is read at every iteration and never written.
\<close>

function taper_loop ::
  "jsnum list \<Rightarrow> jsnum \<Rightarrow> jsnum \<Rightarrow> jsnum \<Rightarrow> nat \<Rightarrow> nat \<Rightarrow> Segment list \<Rightarrow> jsnum option
     \<Rightarrow> Segment list \<times> jsnum option \<times> nat" where
  "taper_loop ss sd step dose guard sid segs remainder =
     (if js_gt dose (Fin 0) \<and> guard < 200 then
        (let (tabs, rem) = allocateTablets dose ss;
             (seg, sid1) = createSegment sid sd ''Once daily (od)'' tabs
         in taper_loop ss sd step (Math_max (Fin 0) (js_sub dose step)) (guard + 1) sid1
              (segs @ [seg]) (Some rem))
      else (segs, remainder, sid))"
  by pat_completeness auto
termination
  by (relation "measure (\<lambda>(ss, sd, step, dose, guard, sid, segs, remainder). 200 - guard)") auto

text \<open>
  Lines 191 to 213 of \<^verbatim>\<open>generateAutoSchedule\<close>, from the variables as
  \<^verbatim>\<open>normalizeStrengths\<close> left them: the values of the local variables \<^verbatim>\<open>segments\<close>
  and \<^verbatim>\<open>remainder\<close> and of \<^verbatim>\<open>segmentId\<close> when the loop is left.
\<close>

definition auto_steps :: "Globals \<Rightarrow> Segment list \<times> jsnum option \<times> nat" where
  "auto_steps g1 =
     (let a = auto (state g1);
          sd = Math_max (Fin 1) (js_or (stepDays a) (Fin 1));
          dose = Math_max (Fin 0) (js_or (startDose a) (Fin 0));
          step = decrement a
      in taper_loop (arrays g1 ! strengths (state g1)) sd step dose 0 (segmentId g1) [] None)"

text \<open>\<^verbatim>\<open>generateAutoSchedule\<close> (lines 189 to 220).\<close>

definition generateAutoSchedule :: "Globals \<Rightarrow> Globals" where
  "generateAutoSchedule g =
     (let g1 = normalizeStrengths g;
          (segs, remainder, sid) = auto_steps g1;
          st = state g1
      in g1\<lparr>segmentId := sid,
            state := st\<lparr>auto := (auto st)\<lparr>lastRemainder := remainder\<rparr>,
                        segments := (if segs \<noteq> [] then segs else segments st),
                        handoutReady := False\<rparr>\<rparr>)"

text \<open>
  \<^verbatim>\<open>render\<close> (lines 353 to 557), as far as the module's variables go: it calls
  \<^verbatim>\<open>normalizeStrengths\<close> (line 354), and what follows reads the state and writes the page.
\<close>

definition render :: "Globals \<Rightarrow> Globals" where
  "render g = normalizeStrengths g"

section \<open>Notions used in the statements and proofs\<close>

text \<open>
  Finite tablets, as pairs of reals, their embedding into the numbers of the model, and the
  sum of strength times count over them, taken in the reals.
\<close>

definition emb :: "real \<times> real \<Rightarrow> jsnum \<times> jsnum" where
  "emb p = (Fin (fst p), Fin (snd p))"

definition tot_fin :: "(real \<times> real) list \<Rightarrow> real" where
  "tot_fin t = (\<Sum>p\<leftarrow>t. fst p * snd p)"

text \<open>What a count can be, whatever the operands: half a natural number, \<open>Infinity\<close> or \<open>NaN\<close>.\<close>

definition count_shape :: "jsnum \<Rightarrow> bool" where
  "count_shape c = (c = NaN \<or> c = PInf \<or> (\<exists>n::nat. c = Fin (real n / 2)))"

text \<open>
  The comparator of \<^verbatim>\<open>normalizeStrengths\<close>, \<^verbatim>\<open>(a, b) => b - a\<close>, moves \<open>x\<close> in front of an
  earlier \<open>y\<close> where \<open>x - y\<close> is positive; a list is \<open>ordered\<close> when no element has to
  move in front of an earlier one.
\<close>

definition above :: "jsnum \<Rightarrow> jsnum \<Rightarrow> bool" where
  "above y x = js_gt (js_sub x y) (Fin 0)"

fun ordered :: "jsnum list \<Rightarrow> bool" where
  "ordered [] = True"
| "ordered (y # ys) = ((\<forall>z\<in>set ys. \<not> above y z) \<and> ordered ys)"

section \<open>Rounding to binary64\<close>

declare expo_up.simps [simp del] expo_down.simps [simp del]

lemmas fl_eval = fl_def exponent_def rne_def expo_up.simps expo_down.simps

lemma rne_floor: "\<lfloor>m\<rfloor> \<le> rne m \<and> rne m \<le> \<lfloor>m\<rfloor> + 1"
  by (simp add: rne_def)

lemma rne_err: "\<bar>of_int (rne m) - m\<bar> \<le> 1 / 2"
proof -
  have "of_int \<lfloor>m\<rfloor> \<le> m" and "m < of_int \<lfloor>m\<rfloor> + 1" by linarith+
  then show ?thesis unfolding rne_def by (auto simp: abs_le_iff)
qed

lemma rne_nonneg: "0 \<le> m \<Longrightarrow> 0 \<le> rne m"
  using rne_floor [of m] by (simp add: order_trans [of 0 "\<lfloor>m\<rfloor>"])

lemma rne_of_int: "rne (of_int k) = k"
  by (simp add: rne_def)

lemma rne_ge: "of_int k \<le> m \<Longrightarrow> k \<le> rne m"
  using rne_floor [of m] by (simp add: le_floor_iff order_trans [of k "\<lfloor>m\<rfloor>"])

lemma rne_pos: "1 / 2 < m \<Longrightarrow> 1 \<le> rne m"
proof -
  assume m: "1 / 2 < m"
  then have f: "0 \<le> \<lfloor>m\<rfloor>" by simp
  show ?thesis
  proof (cases "1 \<le> \<lfloor>m\<rfloor>")
    case True
    then show ?thesis using rne_floor [of m] by linarith
  next
    case False
    then have "\<lfloor>m\<rfloor> = 0" using f by linarith
    then show ?thesis using m by (simp add: rne_def)
  qed
qed

lemma expo_up_lower: "e \<le> expo_up a e"
proof (induction a e rule: expo_up.induct)
  case (1 a e)
  show ?case
  proof (cases "2 \<le> a \<and> e < 1024")
    case True
    with "1.IH" [OF True] show ?thesis by (subst expo_up.simps) simp
  next
    case False
    then show ?thesis by (subst expo_up.simps) auto
  qed
qed

lemma expo_up_upper: "a \<le> 2 ^ n \<Longrightarrow> expo_up a e \<le> e + int n"
proof (induction n arbitrary: a e)
  case 0
  then show ?case by (subst expo_up.simps) simp
next
  case (Suc n)
  show ?case
  proof (cases "2 \<le> a \<and> e < 1024")
    case True
    have "a / 2 \<le> 2 ^ n" using Suc.prems by simp
    from Suc.IH [OF this, of "e + 1"] True show ?thesis
      by (subst expo_up.simps) simp
  next
    case False
    then show ?thesis by (subst expo_up.simps) auto
  qed
qed

lemma expo_up_max: "e \<le> 1024 \<Longrightarrow> expo_up a e \<le> 1024"
proof (induction a e rule: expo_up.induct)
  case (1 a e)
  show ?case
  proof (cases "2 \<le> a \<and> e < 1024")
    case True
    with "1.IH" [OF True] show ?thesis by (subst expo_up.simps) simp
  next
    case False
    then show ?thesis using "1.prems" by (subst expo_up.simps) auto
  qed
qed

lemma expo_up_correct: "1 \<le> a \<Longrightarrow> 2 powi (expo_up a e) \<le> a * 2 powi e"
proof (induction a e rule: expo_up.induct)
  case (1 a e)
  show ?case
  proof (cases "2 \<le> a \<and> e < 1024")
    case True
    then have "1 \<le> a / 2" by simp
    from "1.IH" [OF True this] have "2 powi expo_up (a / 2) (e + 1) \<le> a / 2 * 2 powi (e + 1)" .
    also have "\<dots> = a * 2 powi e" by (simp add: power_int_add)
    finally show ?thesis using True by (subst expo_up.simps) simp
  next
    case False
    have "1 * 2 powi e \<le> a * (2 powi e :: real)"
      using "1.prems" by (intro mult_right_mono) simp_all
    then show ?thesis using False by (subst expo_up.simps) auto
  qed
qed

lemma expo_down_bounds: "- 1022 \<le> e \<Longrightarrow> - 1022 \<le> expo_down a e \<and> expo_down a e \<le> e"
proof (induction a e rule: expo_down.induct)
  case (1 a e)
  show ?case
  proof (cases "a < 1 \<and> - 1022 < e")
    case True
    then have "- 1022 \<le> e - 1" by simp
    from "1.IH" [OF True this] have "- 1022 \<le> expo_down (a * 2) (e - 1)"
      and "expo_down (a * 2) (e - 1) \<le> e - 1" by simp_all
    moreover have "expo_down a e = expo_down (a * 2) (e - 1)"
      using True by (subst expo_down.simps) simp
    ultimately show ?thesis by simp
  next
    case False
    then have "expo_down a e = e" by (subst expo_down.simps) auto
    then show ?thesis using "1.prems" by simp
  qed
qed

lemma expo_down_correct:
  "0 < a \<Longrightarrow> a < 2 \<Longrightarrow> - 1022 < expo_down a e \<Longrightarrow> 2 powi (expo_down a e) \<le> a * 2 powi e"
proof (induction a e rule: expo_down.induct)
  case (1 a e)
  show ?case
  proof (cases "a < 1 \<and> - 1022 < e")
    case True
    have eq: "expo_down a e = expo_down (a * 2) (e - 1)"
      using True by (subst expo_down.simps) simp
    have "0 < a * 2" and "a * 2 < 2" using "1.prems" True by simp_all
    from "1.IH" [OF True this] "1.prems"(3)
    have "2 powi expo_down (a * 2) (e - 1) \<le> a * 2 * 2 powi (e - 1)" by (simp add: eq)
    also have "\<dots> = a * 2 powi e" by (simp add: power_int_diff)
    finally show ?thesis by (simp add: eq)
  next
    case False
    then have eq: "expo_down a e = e" by (subst expo_down.simps) auto
    have "1 \<le> a" using False "1.prems"(3) eq by auto
    then have "1 * 2 powi e \<le> a * (2 powi e :: real)"
      by (intro mult_right_mono) simp_all
    then show ?thesis by (simp add: eq)
  qed
qed

lemma exponent_lower: "- 1022 \<le> exponent a"
  using expo_up_lower [of 0 a] expo_down_bounds [of 0 a] by (simp add: exponent_def)

lemma exponent_max: "exponent a \<le> 1024"
  using expo_up_max [of 0 a] expo_down_bounds [of 0 a] by (simp add: exponent_def)

lemma exponent_upper: "a \<le> 2 ^ n \<Longrightarrow> exponent a \<le> int n"
  using expo_up_upper [of a n 0] expo_down_bounds [of 0 a] by (simp add: exponent_def)

lemma exponent_correct: "0 < a \<Longrightarrow> - 1022 < exponent a \<Longrightarrow> 2 powi (exponent a) \<le> a"
  using expo_up_correct [of a 0] expo_down_correct [of a 0] by (auto simp: exponent_def)

lemma fl_nonzero:
  assumes "x \<noteq> 0"
  shows "fl x =
     (if (2 :: real) ^ 1024 \<le> of_int (rne (\<bar>x\<bar> / 2 powi (exponent \<bar>x\<bar> - 52))) * 2 powi (exponent \<bar>x\<bar> - 52)
      then (if 0 < x then PInf else NInf)
      else Fin (if 0 < x then of_int (rne (\<bar>x\<bar> / 2 powi (exponent \<bar>x\<bar> - 52))) * 2 powi (exponent \<bar>x\<bar> - 52)
                else - (of_int (rne (\<bar>x\<bar> / 2 powi (exponent \<bar>x\<bar> - 52))) * 2 powi (exponent \<bar>x\<bar> - 52))))"
  unfolding fl_def Let_def using assms by (simp only: if_False)

lemma fl_abs:
  assumes "\<bar>x\<bar> \<le> 2 ^ 29"
  shows "\<exists>y. fl x = Fin y \<and> \<bar>y - x\<bar> \<le> 1 / 2 ^ 24 \<and> (0 \<le> x \<longrightarrow> 0 \<le> y) \<and> (x \<le> 0 \<longrightarrow> y \<le> 0)"
proof (cases "x = 0")
  case True
  then show ?thesis by (simp add: fl_def)
next
  case False
  define a where "a = \<bar>x\<bar>"
  define q :: real where "q = 2 powi (exponent a - 52)"
  define N where "N = rne (a / q)"
  define Y where "Y = of_int N * q"
  have a: "0 < a" "a \<le> 2 ^ 29" using False assms by (simp_all add: a_def)
  have q0: "0 < q" by (simp add: q_def)
  have "exponent a - 52 \<le> - 23" using exponent_upper [OF a(2)] by simp
  then have "q \<le> 2 powi (- 23)" unfolding q_def by (intro power_int_increasing) simp_all
  then have q: "q \<le> 1 / 2 ^ 23" by (simp add: power_int_minus_divide)
  have N0: "0 \<le> N" unfolding N_def using a q0 by (intro rne_nonneg) simp
  have "\<bar>of_int N - a / q\<bar> \<le> 1 / 2" unfolding N_def by (rule rne_err)
  then have "\<bar>of_int N - a / q\<bar> * q \<le> 1 / 2 * q"
    using q0 by (intro mult_right_mono) simp_all
  moreover have "(of_int N - a / q) * q = Y - a"
    using q0 by (simp add: Y_def left_diff_distrib)
  then have "\<bar>(of_int N - a / q) * q\<bar> = \<bar>Y - a\<bar>" by (simp only:)
  then have "\<bar>of_int N - a / q\<bar> * q = \<bar>Y - a\<bar>"
    using q0 by (simp add: abs_mult)
  ultimately have err: "\<bar>Y - a\<bar> \<le> 1 / 2 ^ 24" using q by simp
  have Y0: "0 \<le> Y" unfolding Y_def using N0 q0 by simp
  have "Y - a \<le> \<bar>Y - a\<bar>" by simp
  also have "\<dots> \<le> 1 / 2 ^ 24" by (rule err)
  also have "\<dots> \<le> 1" by simp
  finally have "Y \<le> 2 ^ 29 + 1" using a(2) by simp
  also have "\<dots> < (2 ^ 1024 :: real)" by simp
  finally have small: "\<not> 2 ^ 1024 \<le> Y" by simp
  have fl: "fl x = Fin (if 0 < x then Y else - Y)"
    using fl_nonzero [OF False] small unfolding Y_def N_def q_def a_def
    by (simp only: if_False)
  show ?thesis
  proof (cases "0 < x")
    case True
    then show ?thesis using fl err Y0 by (simp add: a_def)
  next
    case neg: False
    then have "a = - x" using False by (simp add: a_def)
    then have "- Y - x = - (Y - a)" by simp
    then have "\<bar>- Y - x\<bar> = \<bar>Y - a\<bar>" by (simp only: abs_minus)
    then have "\<bar>- Y - x\<bar> \<le> 1 / 2 ^ 24" using err by (simp only:)
    then show ?thesis using fl neg Y0 False by auto
  qed
qed

lemma fl_overflow:
  assumes "2 ^ 1024 \<le> x"
  shows "fl x = PInf"
proof -
  define e where "e = exponent \<bar>x\<bar>"
  define q :: real where "q = 2 powi (e - 52)"
  have x: "0 < x" using assms by (simp add: order_less_le_trans [of 0 "2 ^ 1024"])
  have e: "e \<le> 1024" "- 1022 \<le> e" by (simp_all add: e_def exponent_max exponent_lower)
  have q0: "0 < q" by (simp add: q_def)
  define M where "M = (2 :: int) ^ nat (1076 - e)"
  have "of_int M * q = (2 :: real) powi (1076 - e) * 2 powi (e - 52)"
    using e by (simp add: M_def q_def power_int_nonneg_exp)
  also have "\<dots> = 2 powi (1076 - e + (e - 52))" by (rule power_int_add [symmetric]) simp
  also have "1076 - e + (e - 52) = (1024 :: int)" by simp
  also have "(2 :: real) powi 1024 = 2 ^ 1024" by simp
  finally have Mq: "of_int M * q = 2 ^ 1024" .
  then have "of_int M = 2 ^ 1024 / q" using q0 by (simp add: field_simps)
  also have "\<dots> \<le> \<bar>x\<bar> / q" using assms x q0 by (simp add: divide_right_mono)
  finally have "M \<le> rne (\<bar>x\<bar> / q)" by (rule rne_ge)
  then have "of_int M * q \<le> of_int (rne (\<bar>x\<bar> / q)) * q"
    using q0 by (intro mult_right_mono) simp_all
  then have "2 ^ 1024 \<le> of_int (rne (\<bar>x\<bar> / q)) * q" by (simp only: Mq)
  moreover have "x \<noteq> 0" using x by simp
  ultimately show ?thesis
    using fl_nonzero [of x] x unfolding q_def e_def by simp
qed

lemma fl_half:
  "(\<exists>j. fl (of_int k / 2) = Fin (of_int j / 2)) \<or> fl (of_int k / 2) = PInf \<or> fl (of_int k / 2) = NInf"
proof (cases "k = 0")
  case True
  then have "fl (of_int k / 2) = Fin (of_int 0 / 2)" by (simp add: fl_def)
  then show ?thesis by blast
next
  case False
  define x :: real where "x = of_int k / 2"
  define e where "e = exponent \<bar>x\<bar>"
  define q :: real where "q = 2 powi (e - 52)"
  define N where "N = rne (\<bar>x\<bar> / q)"
  have x0: "x \<noteq> 0" using False by (simp add: x_def)
  have q0: "0 < q" by (simp add: q_def)
  have "\<exists>j. of_int N * q = of_int j / 2"
  proof (cases "51 \<le> e")
    case True
    have "q = 2 powi (e - 51 + (- 1))" by (simp add: q_def)
    also have "\<dots> = 2 powi (e - 51) * 2 powi (- 1)" by (rule power_int_add) simp
    also have "\<dots> = 2 ^ nat (e - 51) / 2"
      using True by (simp add: power_int_nonneg_exp power_int_minus_divide)
    finally have "of_int N * q = of_int (N * 2 ^ nat (e - 51)) / 2" by simp
    then show ?thesis by blast
  next
    case small: False
    have "1 / q = 2 powi (52 - e)"
      by (simp add: q_def power_int_minus_divide [symmetric])
    also have "\<dots> = 2 powi (1 + (51 - e))" by simp
    also have "\<dots> = 2 * 2 ^ nat (51 - e)"
      using small by (subst power_int_add) (simp_all add: power_int_nonneg_exp)
    finally have inv: "1 / q = 2 * 2 ^ nat (51 - e)" .
    have "\<bar>x\<bar> / q = \<bar>x\<bar> * (1 / q)" by simp
    also have "\<dots> = of_int (\<bar>k\<bar> * 2 ^ nat (51 - e))"
      unfolding inv by (simp add: x_def)
    finally have "N = \<bar>k\<bar> * 2 ^ nat (51 - e)" by (simp only: N_def rne_of_int)
    then have "of_int N * q = of_int \<bar>k\<bar> * (2 * 2 ^ nat (51 - e) * q) / 2" by simp
    also have "2 * 2 ^ nat (51 - e) * q = 1" using inv q0 by (simp add: field_simps)
    finally have "of_int N * q = of_int \<bar>k\<bar> / 2" by simp
    then show ?thesis by blast
  qed
  then obtain j where j: "of_int N * q = of_int j / 2" by blast
  have "- (of_int j / 2 :: real) = of_int (- j) / 2" by simp
  then have "\<exists>i. - (of_int j / 2 :: real) = of_int i / 2" by blast
  then obtain i where i: "- (of_int j / 2 :: real) = of_int i / 2" by blast
  have "fl x = (if 2 ^ 1024 \<le> of_int N * q then (if 0 < x then PInf else NInf)
                else Fin (if 0 < x then of_int N * q else - (of_int N * q)))"
    using fl_nonzero [OF x0] unfolding N_def q_def e_def .
  then have "fl x = PInf \<or> fl x = NInf \<or> fl x = Fin (of_int j / 2) \<or> fl x = Fin (of_int i / 2)"
    unfolding j i [symmetric] by (auto split: if_splits)
  then show ?thesis unfolding x_def by blast
qed

lemma rne_ge_1_iff: "0 \<le> m \<Longrightarrow> (1 \<le> rne m) = (1 / 2 < m)"
proof
  assume m: "0 \<le> m" and r: "1 \<le> rne m"
  show "1 / 2 < m"
  proof (rule ccontr)
    assume "\<not> 1 / 2 < m"
    then have "m \<le> 1 / 2" by simp
    then have f: "\<lfloor>m\<rfloor> = 0" using m by (simp add: floor_eq_iff)
    then have "rne m = 0" using \<open>m \<le> 1 / 2\<close> by (auto simp: rne_def)
    then show False using r by simp
  qed
next
  assume "1 / 2 < m"
  then show "1 \<le> rne m" by (rule rne_pos)
qed

lemma fl_pos_iff:
  "js_gt (fl d) (Fin 0) = (0 < d \<and> 2 powi (exponent d - 52) / 2 < d)"
proof (cases "d = 0")
  case True
  then show ?thesis by (simp add: fl_def)
next
  case False
  define q :: real where "q = 2 powi (exponent \<bar>d\<bar> - 52)"
  define N where "N = rne (\<bar>d\<bar> / q)"
  have q0: "0 < q" by (simp add: q_def)
  have N0: "0 \<le> N" unfolding N_def using q0 by (intro rne_nonneg) simp
  have fl: "fl d = (if 2 ^ 1024 \<le> of_int N * q then (if 0 < d then PInf else NInf)
                    else Fin (if 0 < d then of_int N * q else - (of_int N * q)))"
    using fl_nonzero [OF False] unfolding N_def q_def .
  have Y0: "0 \<le> of_int N * q" using N0 q0 by simp
  show ?thesis
  proof (cases "0 < d")
    case neg: False
    then have "\<not> js_gt (fl d) (Fin 0)" using Y0 unfolding fl by (simp split: if_splits)
    then show ?thesis using neg by simp
  next
    case True
    then have a: "\<bar>d\<bar> = d" by simp
    have "js_gt (fl d) (Fin 0) = (0 < of_int N * q)"
    proof (cases "2 ^ 1024 \<le> of_int N * q")
      case ov: True
      have "(0 :: real) < 2 ^ 1024" by simp
      then have "0 < of_int N * q" using ov by (rule less_le_trans)
      then show ?thesis using ov True unfolding fl by (simp only: if_True js_gt.simps) simp
    next
      case nov: False
      then show ?thesis using True unfolding fl by (simp only: if_True if_False js_gt.simps)
    qed
    also have "\<dots> = (1 \<le> N)" using q0 N0 by (simp add: zero_less_mult_iff) linarith
    also have "\<dots> = (1 / 2 < \<bar>d\<bar> / q)"
      unfolding N_def using q0 by (intro rne_ge_1_iff) simp
    also have "\<dots> = (q / 2 < d)" using q0 a by (simp add: field_simps)
    finally show ?thesis using True unfolding q_def a by simp
  qed
qed

lemma fl_pos_mono:
  assumes "js_gt (fl d) (Fin 0)" and "d \<le> d'"
  shows "js_gt (fl d') (Fin 0)"
proof -
  define q :: real where "q = 2 powi (exponent d - 52)"
  define q' :: real where "q' = 2 powi (exponent d' - 52)"
  have d: "0 < d" "q / 2 < d" using assms(1) by (simp_all add: fl_pos_iff q_def)
  have d': "0 < d'" using d assms(2) by linarith
  have "q' / 2 < d'"
  proof (cases "- 1022 < exponent d'")
    case True
    have "q' / 2 < q' * 2 ^ 52" unfolding q'_def
      by simp
    also have "\<dots> = 2 powi (exponent d' - 52 + 52)"
      unfolding q'_def by (subst power_int_add) simp_all
    also have "\<dots> = 2 powi exponent d'" by simp
    also have "\<dots> \<le> d'" by (rule exponent_correct [OF d' True])
    finally show ?thesis .
  next
    case False
    then have "exponent d' = - 1022" using exponent_lower [of d'] by linarith
    then have "q' = 2 powi (- 1074)" by (simp add: q'_def)
    also have "\<dots> \<le> q" unfolding q_def
      using exponent_lower [of d] by (intro power_int_increasing) simp_all
    finally have "q' / 2 \<le> q / 2" by simp
    then show ?thesis using d(2) assms(2) by linarith
  qed
  then show ?thesis using d' by (simp add: fl_pos_iff q'_def)
qed

section \<open>The allocator on a bounded domain\<close>

lemma update_emb: "AList.update (Fin s) (Fin c) (map emb t) = map emb (AList.update s c t)"
  by (induction t) (auto simp: emb_def)

lemma Math_max_Fin: "Math_max (Fin a) (Fin b) = Fin (max a b)"
  by (simp add: Math_max_def max_def)

lemma tot_fin_update_new:
  "s \<notin> fst ` set t \<Longrightarrow> tot_fin (AList.update s c t) = tot_fin t + s * c"
  by (induction t) (auto simp: tot_fin_def)

lemma tot_fin_update_le:
  "\<forall>p\<in>set t. 0 \<le> fst p * snd p \<Longrightarrow> 0 \<le> s * c \<Longrightarrow>
   tot_fin (AList.update s c t) \<le> tot_fin t + s * c"
  by (induction t) (auto simp: tot_fin_def)

lemma set_update_subset: "set (AList.update k v al) \<subseteq> insert (k, v) (set al)"
  by (induction al) auto

lemma fl_small:
  assumes "- 536870912 \<le> x" and "x \<le> 536870912"
  shows "\<exists>y. fl x = Fin y \<and> y \<le> x + 1 / 16777216 \<and> x \<le> y + 1 / 16777216 \<and> (0 \<le> x \<longrightarrow> 0 \<le> y)"
proof -
  have "\<bar>x\<bar> \<le> 2 ^ 29" using assms by simp
  from fl_abs [OF this] obtain y where y: "fl x = Fin y" "\<bar>y - x\<bar> \<le> 1 / 2 ^ 24" "0 \<le> x \<longrightarrow> 0 \<le> y"
    by blast
  have "(1 :: real) / 2 ^ 24 = 1 / 16777216" by simp
  then have "\<bar>y - x\<bar> \<le> 1 / 16777216" using y(2) by (simp only:)
  then have "y \<le> x + 1 / 16777216" and "x \<le> y + 1 / 16777216" by linarith+
  then show ?thesis using y by blast
qed

lemma allocate_step_bounded:
  assumes r: "0 \<le> r" "r \<le> 1048576" and s: "1 / 100 \<le> s" "s \<le> 1000"
  shows "\<exists>n r'. allocate_step (tabs, Fin r) (Fin s)
                   = (AList.update (Fin s) (Fin (real n / 2)) tabs, Fin r')
           \<and> 0 \<le> r' \<and> \<bar>r' - (r - real n / 2 * s)\<bar> \<le> 5001 / 1000000
           \<and> real n / 2 * s \<le> r + 1 / 1000"
proof -
  have s0: "0 < s" using s by linarith
  \<comment> \<open>rawCount\<close>
  define Q where "Q = r / s"
  have "r / s \<le> 1048576 / (1 / 100)"
    using r s s0 by (intro frac_le) simp_all
  then have Q: "0 \<le> Q" "Q \<le> 104857600" using r s0 by (simp_all add: Q_def)
  have "- 536870912 \<le> Q" "Q \<le> 536870912" using Q by linarith+
  from fl_small [OF this] Q(1) obtain y1 where y1: "fl Q = Fin y1"
    "y1 \<le> Q + 1 / 16777216" "Q \<le> y1 + 1 / 16777216" "0 \<le> y1" by blast
  \<comment> \<open>rawCount * 2\<close>
  have "- 536870912 \<le> y1 * 2" "y1 * 2 \<le> 536870912" using y1 Q by linarith+
  from fl_small [OF this] y1(4) obtain y2 where y2: "fl (y1 * 2) = Fin y2"
    "y2 \<le> y1 * 2 + 1 / 16777216" "y1 * 2 \<le> y2 + 1 / 16777216" "0 \<le> y2" by auto
  \<comment> \<open>floor, halved\<close>
  define k where "k = \<lfloor>y2\<rfloor>"
  define K :: real where "K = of_int k"
  have k0: "0 \<le> k" using y2(4) by (simp add: k_def)
  have K: "0 \<le> K" "K \<le> y2" using k0 by (simp_all add: K_def k_def)
  have "- 536870912 \<le> K / 2" "K / 2 \<le> 536870912" using K y2 y1 Q by linarith+
  from fl_small [OF this] obtain y3 where y3: "fl (K / 2) = Fin y3"
    "y3 \<le> K / 2 + 1 / 16777216" "K / 2 \<le> y3 + 1 / 16777216" by blast
  from fl_half [of k] y3(1) obtain j where j: "y3 = of_int j / 2" by (auto simp: K_def)
  define J :: real where "J = of_int j"
  have "J - K < 1" "K - J < 1" using y3(2,3) unfolding j J_def [symmetric] by linarith+
  then have "j - k < 1" "k - j < 1" unfolding J_def K_def by linarith+
  then have "j = k" by linarith
  then have y3K: "y3 = K / 2" using j by (simp add: K_def)
  define n where "n = nat k"
  define c where "c = real n / 2"
  have c: "c = K / 2" "0 \<le> c" using k0 by (simp_all add: c_def n_def K_def)
  have count: "Math_max (Fin 0) (js_div (Math_floor (js_mul (js_div (Fin r) (Fin s)) (Fin 2))) (Fin 2))
                 = Fin c"
    using s0 c(2) y1(1) y2(1) y3(1) unfolding Q_def K_def k_def y3K c(1)
    by (simp add: Math_max_Fin)
  \<comment> \<open>count * strength\<close>
  have "c \<le> Q + 3 / 33554432" using c K y2 y1 by linarith
  then have "c * s \<le> (Q + 3 / 33554432) * s" using s0 by (intro mult_right_mono) simp_all
  also have "\<dots> = r + 3 / 33554432 * s" using s0 by (simp add: distrib_right Q_def)
  also have "\<dots> \<le> r + 1 / 1000" using s by simp
  finally have cs: "c * s \<le> r + 1 / 1000" .
  define P where "P = c * s"
  have P: "0 \<le> P" "P \<le> r + 1 / 1000" using c s0 cs by (simp_all add: P_def)
  have "- 536870912 \<le> P" "P \<le> 536870912" using P r by linarith+
  from fl_small [OF this] P(1) obtain y4 where y4: "fl P = Fin y4"
    "y4 \<le> P + 1 / 16777216" "P \<le> y4 + 1 / 16777216" "0 \<le> y4" by blast
  \<comment> \<open>remaining - count * strength\<close>
  have "- 536870912 \<le> r + - y4" "r + - y4 \<le> 536870912" using y4 P r by linarith+
  from fl_small [OF this] obtain y5 where y5: "fl (r + - y4) = Fin y5"
    "y5 \<le> r + - y4 + 1 / 16777216" "r + - y4 \<le> y5 + 1 / 16777216" by blast
  \<comment> \<open>times 100, rounded, divided by 100\<close>
  have "- 536870912 \<le> y5 * 100" "y5 * 100 \<le> 536870912" using y5 y4 P r by linarith+
  from fl_small [OF this] obtain y6 where y6: "fl (y5 * 100) = Fin y6"
    "y6 \<le> y5 * 100 + 1 / 16777216" "y5 * 100 \<le> y6 + 1 / 16777216" by blast
  define m where "m = \<lfloor>y6 + 1 / 2\<rfloor>"
  define M :: real where "M = of_int m"
  have M: "M \<le> y6 + 1 / 2" "y6 + 1 / 2 < M + 1" unfolding M_def m_def by linarith+
  have "0 \<le> y6 + 1 / 2" using y6 y5 y4 P r by linarith
  then have m0: "0 \<le> m" by (simp add: m_def)
  then have M0: "0 \<le> M" by (simp add: M_def)
  have "- 536870912 \<le> M / 100" "M / 100 \<le> 536870912" using M M0 y6 y5 y4 P r by linarith+
  from fl_small [OF this] M0 obtain y7 where y7: "fl (M / 100) = Fin y7"
    "y7 \<le> M / 100 + 1 / 16777216" "M / 100 \<le> y7 + 1 / 16777216" "0 \<le> y7" by auto
  have "y7 - (r - P) \<le> 5001 / 1000000" "(r - P) - y7 \<le> 5001 / 1000000"
    using y7(2,3) M y6(2,3) y5(2,3) y4(2,3) by linarith+
  then have err: "\<bar>y7 - (r - P)\<bar> \<le> 5001 / 1000000" by linarith
  have "allocate_step (tabs, Fin r) (Fin s) = (AList.update (Fin s) (Fin c) tabs, Fin y7)"
    unfolding allocate_step_def Let_def fst_conv snd_conv count
    using y4(1) y5(1) y6(1) y7(1) unfolding P_def M_def m_def
    by (simp add: js_sub_def)
  then show ?thesis
    using y7(4) err P(2) unfolding P_def c_def by blast
qed

lemma allocate_fold_bounded:
  assumes "\<forall>s\<in>set S. 1 / 100 \<le> s \<and> s \<le> 1000"
    and "0 \<le> r" and "r + real (length S) * (5001 / 1000000) \<le> 1048576"
    and "\<forall>p\<in>set t. (\<exists>n::nat. snd p = real n / 2) \<and> 0 \<le> fst p * snd p"
  shows "\<exists>t' r'. foldl allocate_step (map emb t, Fin r) (map Fin S) = (map emb t', Fin r')
           \<and> 0 \<le> r'
           \<and> (\<forall>p\<in>set t'. (\<exists>n::nat. snd p = real n / 2) \<and> 0 \<le> fst p * snd p)
           \<and> fst ` set t' = fst ` set t \<union> set S
           \<and> tot_fin t' + r' \<le> tot_fin t + r + real (length S) * (5001 / 1000000)
           \<and> (distinct S \<and> set S \<inter> fst ` set t = {} \<longrightarrow>
                \<bar>tot_fin t' + r' - (tot_fin t + r)\<bar> \<le> real (length S) * (5001 / 1000000))"
  using assms
proof (induction S arbitrary: t r)
  case Nil
  have "foldl allocate_step (map emb t, Fin r) (map Fin []) = (map emb t, Fin r)" by simp
  then show ?case using Nil.prems(2,4) by (intro exI [of _ t] exI [of _ r]) simp
next
  case (Cons s S)
  define L where "L = real (length S) * (5001 / 1000000)"
  have L0: "0 \<le> L" by (simp add: L_def)
  have sb: "1 / 100 \<le> s" "s \<le> 1000" and Sb: "\<forall>s\<in>set S. 1 / 100 \<le> s \<and> s \<le> 1000"
    using Cons.prems(1) by simp_all
  have "real (length (s # S)) = real (length S) + 1" by simp
  then have len: "real (length (s # S)) * (5001 / 1000000) = L + 5001 / 1000000"
    unfolding L_def by (simp only: distrib_right mult_1)
  have rb: "r + L + 5001 / 1000000 \<le> 1048576"
    using Cons.prems(3) unfolding len by linarith
  then have r: "r \<le> 1048576" using L0 by linarith
  from allocate_step_bounded [OF Cons.prems(2) r sb, of "map emb t"]
  obtain n r1 where step: "allocate_step (map emb t, Fin r) (Fin s)
                             = (AList.update (Fin s) (Fin (real n / 2)) (map emb t), Fin r1)"
    and r1: "0 \<le> r1" "\<bar>r1 - (r - real n / 2 * s)\<bar> \<le> 5001 / 1000000"
    and cs: "real n / 2 * s \<le> r + 1 / 1000"
    by blast
  define c where "c = real n / 2"
  define P where "P = s * c"
  define t1 where "t1 = AList.update s c t"
  have P0: "0 \<le> P" using sb by (simp add: P_def c_def)
  have "real n / 2 * s = P" by (simp add: P_def c_def)
  then have "\<bar>r1 - (r - P)\<bar> \<le> 5001 / 1000000" using r1(2) by (simp only:)
  then have r1': "r1 \<le> r - P + 5001 / 1000000" "r - P \<le> r1 + 5001 / 1000000"
    by linarith+
  have step': "allocate_step (map emb t, Fin r) (Fin s) = (map emb t1, Fin r1)"
    by (simp add: step t1_def c_def update_emb)
  have ent: "\<forall>p\<in>set t1. (\<exists>n::nat. snd p = real n / 2) \<and> 0 \<le> fst p * snd p"
    using set_update_subset [of s c t] Cons.prems(4) P0
    unfolding t1_def by (auto simp: c_def P_def)
  have keys: "fst ` set t1 = insert s (fst ` set t)"
    by (simp add: t1_def dom_update)
  have "r1 + L \<le> 1048576" using r1' P0 rb by linarith
  from Cons.IH [OF Sb r1(1) this [unfolded L_def] ent]
  obtain t' r' where fold: "foldl allocate_step (map emb t1, Fin r1) (map Fin S) = (map emb t', Fin r')"
    and r': "0 \<le> r'"
    and ent': "\<forall>p\<in>set t'. (\<exists>n::nat. snd p = real n / 2) \<and> 0 \<le> fst p * snd p"
    and keys': "fst ` set t' = fst ` set t1 \<union> set S"
    and le: "tot_fin t' + r' \<le> tot_fin t1 + r1 + L"
    and eq: "distinct S \<and> set S \<inter> fst ` set t1 = {} \<longrightarrow> \<bar>tot_fin t' + r' - (tot_fin t1 + r1)\<bar> \<le> L"
    unfolding L_def by blast
  have t1le: "tot_fin t1 \<le> tot_fin t + P"
    unfolding t1_def P_def using Cons.prems(4) P0
    by (intro tot_fin_update_le) (simp_all add: P_def)
  have le': "tot_fin t' + r' \<le> tot_fin t + r + (L + 5001 / 1000000)"
    using le t1le r1' by linarith
  have eq': "\<bar>tot_fin t' + r' - (tot_fin t + r)\<bar> \<le> L + 5001 / 1000000"
    if d: "distinct (s # S)" "set (s # S) \<inter> fst ` set t = {}"
  proof -
    have "s \<notin> fst ` set t" using d(2) by simp
    then have "tot_fin t1 = tot_fin t + P"
      unfolding t1_def P_def by (rule tot_fin_update_new)
    moreover have "distinct S \<and> set S \<inter> fst ` set t1 = {}"
      using d keys by auto
    with eq have "\<bar>tot_fin t' + r' - (tot_fin t1 + r1)\<bar> \<le> L" by blast
    ultimately show ?thesis using r1' by linarith
  qed
  have "foldl allocate_step (map emb t, Fin r) (map Fin (s # S)) = (map emb t', Fin r')"
    by (simp add: step' fold)
  moreover have "fst ` set t' = fst ` set t \<union> set (s # S)"
    using keys' keys by auto
  ultimately show ?case
    using r' ent' le' eq' unfolding len by blast
qed

lemma allocateTablets_bounded:
  assumes "0 \<le> D" and "D \<le> 1000000" and "length S \<le> 1000"
    and "\<forall>s\<in>set S. 1 / 100 \<le> s \<and> s \<le> 1000"
  shows "\<exists>t r. allocateTablets (Fin D) (map Fin S) = (map emb t, Fin r)
           \<and> 0 \<le> r
           \<and> (\<forall>p\<in>set t. (\<exists>n::nat. snd p = real n / 2) \<and> 0 \<le> fst p * snd p)
           \<and> fst ` set t = set S
           \<and> tot_fin t + r \<le> D + real (length S) * (5001 / 1000000)
           \<and> (distinct S \<longrightarrow> \<bar>tot_fin t + r - D\<bar> \<le> real (length S) * (5001 / 1000000))"
proof -
  have "real (length S) \<le> 1000" using assms(3) by simp
  then have "D + real (length S) * (5001 / 1000000) \<le> 1048576" using assms(2) by linarith
  from allocate_fold_bounded [OF assms(4,1) this, of "[]"]
  show ?thesis by (simp add: allocateTablets_def tot_fin_def)
qed

section \<open>The shape of a count\<close>

lemma count_shape_max:
  "count_shape (Math_max (Fin 0) (js_div (Math_floor X) (Fin 2)))"
proof (cases X)
  case (Fin y)
  define k where "k = \<lfloor>y\<rfloor>"
  have d: "js_div (Math_floor X) (Fin 2) = fl (of_int k / 2)" by (simp add: Fin k_def)
  from fl_half [of k] show ?thesis
  proof (elim disjE exE)
    fix j assume "fl (of_int k / 2) = Fin (of_int j / 2)"
    then have "Math_max (Fin 0) (js_div (Math_floor X) (Fin 2)) = Fin (real (nat j) / 2)"
      by (simp add: d Math_max_Fin max_def)
    then show ?thesis unfolding count_shape_def by blast
  next
    assume "fl (of_int k / 2) = PInf"
    then show ?thesis by (simp add: d Math_max_def count_shape_def)
  next
    assume "fl (of_int k / 2) = NInf"
    then have "Math_max (Fin 0) (js_div (Math_floor X) (Fin 2)) = Fin (real 0 / 2)"
      by (simp add: d Math_max_def)
    then show ?thesis unfolding count_shape_def by blast
  qed
next
  case PInf
  then show ?thesis by (simp add: Math_max_def js_inf_def count_shape_def)
next
  case NInf
  then have "Math_max (Fin 0) (js_div (Math_floor X) (Fin 2)) = Fin (real 0 / 2)"
    by (simp add: Math_max_def js_inf_def)
  then show ?thesis unfolding count_shape_def by blast
next
  case NaN
  then show ?thesis by (simp add: Math_max_def count_shape_def)
qed

lemma allocate_fold_shape:
  "\<forall>p\<in>set (fst acc). count_shape (snd p) \<Longrightarrow>
   \<forall>p\<in>set (fst (foldl allocate_step acc ss)). count_shape (snd p)"
proof (induction ss arbitrary: acc)
  case Nil
  then show ?case by simp
next
  case (Cons s ss)
  have "\<forall>p\<in>set (fst (allocate_step acc s)). count_shape (snd p)"
    using Cons.prems
      set_update_subset [of s "Math_max (Fin 0) (js_div (Math_floor (js_mul (js_div (snd acc) s) (Fin 2))) (Fin 2))" "fst acc"]
      count_shape_max [of "js_mul (js_div (snd acc) s) (Fin 2)"]
    by (auto simp: allocate_step_def Let_def)
  from Cons.IH [OF this] show ?case by simp
qed

section \<open>The loop of the sequencer\<close>

declare taper_loop.simps [simp del]

lemma taper_loop_stop:
  "\<not> (js_gt dose (Fin 0) \<and> guard < 200) \<Longrightarrow>
   taper_loop ss sd step dose guard sid segs remainder = (segs, remainder, sid)"
  by (subst taper_loop.simps) auto

lemma taper_loop_step:
  "js_gt dose (Fin 0) \<Longrightarrow> guard < 200 \<Longrightarrow>
   taper_loop ss sd step dose guard sid segs remainder =
     taper_loop ss sd step (Math_max (Fin 0) (js_sub dose step)) (Suc guard) (Suc sid)
       (segs @ [\<lparr>id' = sid, days = sd, frequency = ''Once daily (od)'',
                  tablets = fst (allocateTablets dose ss)\<rparr>])
       (Some (snd (allocateTablets dose ss)))"
  by (subst taper_loop.simps) (simp add: createSegment_def split: prod.split)

lemma taper_loop_length:
  "length (fst (taper_loop ss sd step dose guard sid segs remainder)) \<le> length segs + (200 - guard)"
proof (induction ss sd step dose guard sid segs remainder rule: taper_loop.induct)
  case (1 ss sd step dose guard sid segs remainder)
  show ?case
  proof (cases "js_gt dose (Fin 0) \<and> guard < 200")
    case True
    obtain tabs r where a: "allocateTablets dose ss = (tabs, r)"
      by (cases "allocateTablets dose ss")
    obtain seg sid1 where c: "createSegment sid sd ''Once daily (od)'' tabs = (seg, sid1)"
      by (cases "createSegment sid sd ''Once daily (od)'' tabs")
    have "length (fst (taper_loop ss sd step (Math_max (Fin 0) (js_sub dose step)) (guard + 1) sid1
            (segs @ [seg]) (Some r))) \<le> length (segs @ [seg]) + (200 - (guard + 1))"
      by (rule "1.IH" [OF True a [symmetric] refl c [symmetric] refl])
    moreover have "seg = \<lparr>id' = sid, days = sd, frequency = ''Once daily (od)'', tablets = tabs\<rparr>"
      and "sid1 = Suc sid"
      using c by (auto simp: createSegment_def)
    ultimately show ?thesis
      using True by (auto simp add: taper_loop_step a)
  next
    case False
    then show ?thesis by (simp add: taper_loop_stop)
  qed
qed

lemma taper_loop_grows:
  "length segs \<le> length (fst (taper_loop ss sd step dose guard sid segs remainder))"
proof (induction ss sd step dose guard sid segs remainder rule: taper_loop.induct)
  case (1 ss sd step dose guard sid segs remainder)
  show ?case
  proof (cases "js_gt dose (Fin 0) \<and> guard < 200")
    case True
    obtain tabs r where a: "allocateTablets dose ss = (tabs, r)"
      by (cases "allocateTablets dose ss")
    obtain seg sid1 where c: "createSegment sid sd ''Once daily (od)'' tabs = (seg, sid1)"
      by (cases "createSegment sid sd ''Once daily (od)'' tabs")
    have "length (segs @ [seg]) \<le> length (fst (taper_loop ss sd step
            (Math_max (Fin 0) (js_sub dose step)) (guard + 1) sid1 (segs @ [seg]) (Some r)))"
      by (rule "1.IH" [OF True a [symmetric] refl c [symmetric] refl])
    moreover have "seg = \<lparr>id' = sid, days = sd, frequency = ''Once daily (od)'', tablets = tabs\<rparr>"
      and "sid1 = Suc sid"
      using c by (auto simp: createSegment_def)
    ultimately show ?thesis
      using True by (simp add: taper_loop_step a)
  next
    case False
    then show ?thesis by (simp add: taper_loop_stop)
  qed
qed

lemma taper_loop_no_steps:
  assumes "fst (taper_loop ss sd step dose guard sid [] remainder) = []"
  shows "\<not> (js_gt dose (Fin 0) \<and> guard < 200)"
proof
  assume c: "js_gt dose (Fin 0) \<and> guard < 200"
  have "Suc 0 \<le> length (fst (taper_loop ss sd step dose guard sid [] remainder))"
    using c taper_loop_grows [of "[\<lparr>id' = sid, days = sd, frequency = ''Once daily (od)'',
                  tablets = fst (allocateTablets dose ss)\<rparr>]" ss sd step
               "Math_max (Fin 0) (js_sub dose step)" "Suc guard" "Suc sid"
               "Some (snd (allocateTablets dose ss))"]
    by (simp add: taper_loop_step)
  then show False using assms by simp
qed

lemma taper_loop_constant_dose:
  assumes "js_gt dose (Fin 0)" and "Math_max (Fin 0) (js_sub dose step) = dose"
  shows "map (\<lambda>s. (days s, frequency s, tablets s))
           (fst (taper_loop ss sd step dose guard sid segs remainder)) =
         map (\<lambda>s. (days s, frequency s, tablets s)) segs
           @ replicate (200 - guard) (sd, ''Once daily (od)'', fst (allocateTablets dose ss))"
  using assms
proof (induction ss sd step dose guard sid segs remainder rule: taper_loop.induct)
  case (1 ss sd step dose guard sid segs remainder)
  show ?case
  proof (cases "guard < 200")
    case True
    then have cond: "js_gt dose (Fin 0) \<and> guard < 200" using "1.prems" by simp
    obtain tabs r where a: "allocateTablets dose ss = (tabs, r)"
      by (cases "allocateTablets dose ss")
    obtain seg sid1 where c: "createSegment sid sd ''Once daily (od)'' tabs = (seg, sid1)"
      by (cases "createSegment sid sd ''Once daily (od)'' tabs")
    have seg: "seg = \<lparr>id' = sid, days = sd, frequency = ''Once daily (od)'', tablets = tabs\<rparr>"
      and sid1: "sid1 = Suc sid"
      using c by (auto simp: createSegment_def)
    have n: "200 - guard = Suc (200 - Suc guard)" using True by simp
    have "map (\<lambda>s. (days s, frequency s, tablets s))
           (fst (taper_loop ss sd step (Math_max (Fin 0) (js_sub dose step)) (guard + 1) sid1
                  (segs @ [seg]) (Some r))) =
         map (\<lambda>s. (days s, frequency s, tablets s)) (segs @ [seg])
           @ replicate (200 - (guard + 1)) (sd, ''Once daily (od)'',
               fst (allocateTablets (Math_max (Fin 0) (js_sub dose step)) ss))"
      using "1.prems" by (intro "1.IH" [OF cond a [symmetric] refl c [symmetric] refl]) simp_all
    then show ?thesis
      using True "1.prems" 
      by (simp add: taper_loop_step a seg sid1 n replicate_app_Cons_same del: replicate.simps)
         (simp add: replicate_app_Cons_same)
  next
    case False
    then show ?thesis by (simp add: taper_loop_stop)
  qed
qed

lemma taper_loop_prefix:
  "take (length segs) (fst (taper_loop ss sd step dose guard sid segs remainder)) = segs"
proof (induction ss sd step dose guard sid segs remainder rule: taper_loop.induct)
  case (1 ss sd step dose guard sid segs remainder)
  show ?case
  proof (cases "js_gt dose (Fin 0) \<and> guard < 200")
    case True
    obtain tabs r where a: "allocateTablets dose ss = (tabs, r)"
      by (cases "allocateTablets dose ss")
    obtain seg sid1 where c: "createSegment sid sd ''Once daily (od)'' tabs = (seg, sid1)"
      by (cases "createSegment sid sd ''Once daily (od)'' tabs")
    define rest where "rest = fst (taper_loop ss sd step (Math_max (Fin 0) (js_sub dose step))
            (guard + 1) sid1 (segs @ [seg]) (Some r))"
    have ih: "take (length (segs @ [seg])) rest = segs @ [seg]"
      unfolding rest_def by (rule "1.IH" [OF True a [symmetric] refl c [symmetric] refl])
    have "take (length segs) rest = take (length segs) (take (length (segs @ [seg])) rest)"
      by (simp add: min_def)
    also have "\<dots> = take (length segs) (segs @ [seg])" by (simp only: ih)
    also have "\<dots> = segs" by simp
    finally have "take (length segs) rest = segs" .
    moreover have "seg = \<lparr>id' = sid, days = sd, frequency = ''Once daily (od)'', tablets = tabs\<rparr>"
      and "sid1 = Suc sid"
      using c by (auto simp: createSegment_def)
    ultimately show ?thesis
      using True by (simp add: taper_loop_step a rest_def)
  next
    case False
    then show ?thesis by (simp add: taper_loop_stop)
  qed
qed

section \<open>The sequencer and the state\<close>

lemma normalizeStrengths_auto: "auto (state (normalizeStrengths g)) = auto (state g)"
  by (simp add: normalizeStrengths_def Let_def)

lemma generate_segments:
  "segments (state (generateAutoSchedule g)) =
     (if fst (auto_steps (normalizeStrengths g)) \<noteq> [] then fst (auto_steps (normalizeStrengths g))
      else segments (state (normalizeStrengths g)))"
  by (simp add: generateAutoSchedule_def Let_def split: prod.split)

lemma generate_auto:
  "auto (state (generateAutoSchedule g)) =
     (auto (state g))\<lparr>lastRemainder := fst (snd (auto_steps (normalizeStrengths g)))\<rparr>"
  by (simp add: generateAutoSchedule_def Let_def normalizeStrengths_auto split: prod.split)

lemma generate_arrays: "arrays (generateAutoSchedule g) = arrays (normalizeStrengths g)"
  by (simp add: generateAutoSchedule_def Let_def split: prod.split)

lemma normalizeStrengths_keeps_arrays:
  "take (length (arrays g)) (arrays (normalizeStrengths g)) = arrays g"
  by (simp add: normalizeStrengths_def Let_def)

section \<open>Normalised strengths\<close>

lemma update_fresh: "k \<notin> fst ` set al \<Longrightarrow> AList.update k v al = al @ [(k, v)]"
  by (induction al) auto

lemma foldl_update_fresh:
  "distinct ks \<Longrightarrow> set ks \<inter> fst ` set acc = {} \<Longrightarrow>
   foldl (\<lambda>nt s. AList.update s (f s) nt) acc ks = acc @ map (\<lambda>s. (s, f s)) ks"
proof (induction ks arbitrary: acc)
  case Nil
  then show ?case by simp
next
  case (Cons k ks)
  have fresh: "k \<notin> fst ` set acc" using Cons.prems by auto
  have "distinct ks" and "set ks \<inter> fst ` set (acc @ [(k, f k)]) = {}"
    using Cons.prems by auto
  from Cons.IH [OF this] show ?case
    by (simp add: update_fresh [OF fresh])
qed

lemma nextTablets_keyed:
  assumes "distinct (map fst al)" and "NaN \<notin> snd ` set al"
  shows "nextTablets (map fst al) al = al"
proof -
  have "nextTablets (map fst al) al =
          map (\<lambda>p. (fst p, js_or_undefined (map_of al (fst p)) (Fin 0))) al"
    using foldl_update_fresh [OF assms(1), of "[]" "\<lambda>s. js_or_undefined (map_of al s) (Fin 0)"]
    by (simp add: nextTablets_def comp_def)
  also have "\<dots> = al"
  proof (rule map_idI)
    fix p assume p: "p \<in> set al"
    then have "(fst p, snd p) \<in> set al" by simp
    then have "map_of al (fst p) = Some (snd p)"
      by (rule map_of_is_SomeI [OF assms(1)])
    moreover have "snd p \<noteq> NaN" using p assms(2) by force
    ultimately have "js_or_undefined (map_of al (fst p)) (Fin 0) = snd p"
      by (auto simp: js_or_undefined_def js_or_def falsy_def)
    then show "(fst p, js_or_undefined (map_of al (fst p)) (Fin 0)) = p"
      by simp
  qed
  finally show ?thesis .
qed

lemma uniq_set: "set (uniq xs) = set xs"
  by (induction xs rule: uniq.induct) auto

lemma uniq_distinct: "distinct (uniq xs)"
  by (induction xs rule: uniq.induct) (auto simp: uniq_set)

lemma sort_insert_set: "set (sort_insert cmp x ys) = insert x (set ys)"
  by (induction ys) auto

lemma sort_insert_distinct: "distinct (sort_insert cmp x ys) = (x \<notin> set ys \<and> distinct ys)"
  by (induction ys) (auto simp: sort_insert_set)

lemma sort_fold_distinct:
  "distinct acc \<Longrightarrow> distinct xs \<Longrightarrow> set acc \<inter> set xs = {} \<Longrightarrow>
   distinct (foldl (\<lambda>acc x. sort_insert cmp x acc) acc xs)"
proof (induction xs arbitrary: acc)
  case Nil
  then show ?case by simp
next
  case (Cons x xs)
  have "distinct (sort_insert cmp x acc)" and "distinct xs"
    and "set (sort_insert cmp x acc) \<inter> set xs = {}"
    using Cons.prems by (auto simp: sort_insert_distinct sort_insert_set)
  from Cons.IH [OF this] show ?case by simp
qed

lemma array_sort_distinct: "distinct xs \<Longrightarrow> distinct (array_sort cmp xs)"
  by (simp add: array_sort_def sort_fold_distinct)

lemma normalizeStrengths_strengths:
  "arrays (normalizeStrengths g) ! strengths (state (normalizeStrengths g)) =
     array_sort (\<lambda>a b. js_sub b a) (uniq (filter (\<lambda>v. v \<noteq> NaN) (arrays g ! strengths (state g))))"
  by (simp add: normalizeStrengths_def Let_def)

lemma normalizeStrengths_segments:
  "segments (state (normalizeStrengths g)) =
     map (\<lambda>segment. segment\<lparr>tablets :=
            nextTablets (arrays (normalizeStrengths g) ! strengths (state (normalizeStrengths g)))
              (tablets segment)\<rparr>)
       (segments (state g))"
  by (simp add: normalizeStrengths_def Let_def)

section \<open>The sort of the strengths\<close>

lemma above_Fin: "above (Fin y) (Fin x) = js_gt (fl (x - y)) (Fin 0)"
  by (simp add: above_def js_sub_def)

lemma above_asym:
  assumes "x \<noteq> NaN" "y \<noteq> NaN" "above y x"
  shows "\<not> above x y"
proof (cases x; cases y)
  fix a b assume xy: "x = Fin a" "y = Fin b"
  then have "0 < a - b" using assms(3) by (simp add: above_Fin fl_pos_iff)
  then have "\<not> 0 < b - a" by simp
  then show ?thesis by (simp add: xy above_Fin fl_pos_iff)
qed (use assms in \<open>simp_all add: above_def js_sub_def\<close>)

lemma above_trans:
  assumes "x \<noteq> NaN" "y \<noteq> NaN" "z \<noteq> NaN" "above y x" "above x z"
  shows "above y z"
proof (cases x; cases y; cases z)
  fix a b c assume xyz: "x = Fin a" "y = Fin b" "z = Fin c"
  have 1: "js_gt (fl (a - b)) (Fin 0)" and 2: "js_gt (fl (c - a)) (Fin 0)"
    using assms(4,5) by (simp_all add: xyz above_Fin)
  from 2 have "0 < c - a" by (simp add: fl_pos_iff)
  then have "a - b \<le> c - b" by simp
  from fl_pos_mono [OF 1 this] show ?thesis by (simp add: xyz above_Fin)
qed (use assms in \<open>simp_all add: above_def js_sub_def\<close>)

lemma sort_insert_above:
  "sort_insert (\<lambda>a b. js_sub b a) x (y # ys) =
     (if above y x then x # y # ys else y # sort_insert (\<lambda>a b. js_sub b a) x ys)"
  by (simp add: above_def)

lemma sort_insert_ordered:
  "NaN \<notin> set (x # ys) \<Longrightarrow> ordered ys \<Longrightarrow> ordered (sort_insert (\<lambda>a b. js_sub b a) x ys)"
proof (induction ys)
  case Nil
  then show ?case by simp
next
  case (Cons y ys)
  have n: "x \<noteq> NaN" "y \<noteq> NaN" "\<forall>z\<in>set ys. z \<noteq> NaN" using Cons.prems(1) by auto
  show ?case
  proof (cases "above y x")
    case True
    have "\<not> above x z" if "z \<in> set (y # ys)" for z
    proof (cases "z = y")
      case True
      then show ?thesis using above_asym [OF n(1,2) \<open>above y x\<close>] by simp
    next
      case False
      then have z: "z \<in> set ys" using that by simp
      then have "\<not> above y z" using Cons.prems(2) by simp
      then show ?thesis using above_trans [OF n(1,2) _ \<open>above y x\<close>] n(3) z by blast
    qed
    then show ?thesis using True Cons.prems(2)
      by (simp add: sort_insert_above del: sort_insert.simps(2))
  next
    case False
    have "ordered (sort_insert (\<lambda>a b. js_sub b a) x ys)"
      using Cons.prems by (intro Cons.IH) auto
    then show ?thesis using False Cons.prems(2)
      by (simp add: sort_insert_above sort_insert_set del: sort_insert.simps(2))
  qed
qed

lemma sort_insert_last:
  "\<forall>y\<in>set ys. \<not> above y x \<Longrightarrow> sort_insert (\<lambda>a b. js_sub b a) x ys = ys @ [x]"
  by (induction ys) (simp_all add: sort_insert_above del: sort_insert.simps(2))

lemma ordered_append:
  "ordered (as @ bs) = (ordered as \<and> ordered bs \<and> (\<forall>a\<in>set as. \<forall>b\<in>set bs. \<not> above a b))"
  by (induction as) auto

lemma sort_fold_ordered:
  "NaN \<notin> set acc \<union> set xs \<Longrightarrow> ordered acc \<Longrightarrow>
   ordered (foldl (\<lambda>acc x. sort_insert (\<lambda>a b. js_sub b a) x acc) acc xs)"
proof (induction xs arbitrary: acc)
  case Nil
  then show ?case by simp
next
  case (Cons x xs)
  have "ordered (sort_insert (\<lambda>a b. js_sub b a) x acc)"
    using Cons.prems by (intro sort_insert_ordered) auto
  moreover have "NaN \<notin> set (sort_insert (\<lambda>a b. js_sub b a) x acc) \<union> set xs"
    using Cons.prems(1) by (auto simp: sort_insert_set)
  ultimately show ?case using Cons.IH by simp
qed

lemma sort_fold_id:
  "ordered (acc @ xs) \<Longrightarrow>
   foldl (\<lambda>acc x. sort_insert (\<lambda>a b. js_sub b a) x acc) acc xs = acc @ xs"
proof (induction xs arbitrary: acc)
  case Nil
  then show ?case by simp
next
  case (Cons x xs)
  have "\<forall>y\<in>set acc. \<not> above y x" using Cons.prems by (simp add: ordered_append)
  then have "sort_insert (\<lambda>a b. js_sub b a) x acc = acc @ [x]" by (rule sort_insert_last)
  moreover have "ordered ((acc @ [x]) @ xs)" using Cons.prems by simp
  ultimately show ?case using Cons.IH [of "acc @ [x]"] by simp
qed

lemma array_sort_set: "set (array_sort cmp xs) = set xs"
proof -
  have "set (foldl (\<lambda>acc x. sort_insert cmp x acc) acc xs) = set acc \<union> set xs" for acc
    by (induction xs arbitrary: acc) (auto simp: sort_insert_set)
  then show ?thesis by (simp add: array_sort_def)
qed

lemma array_sort_ordered:
  "NaN \<notin> set xs \<Longrightarrow> ordered (array_sort (\<lambda>a b. js_sub b a) xs)"
  using sort_fold_ordered [of "[]" xs] by (simp add: array_sort_def)

lemma array_sort_id: "ordered xs \<Longrightarrow> array_sort (\<lambda>a b. js_sub b a) xs = xs"
  using sort_fold_id [of "[]" xs] by (simp add: array_sort_def)

lemma uniq_id: "distinct xs \<Longrightarrow> uniq xs = xs"
proof (induction xs rule: uniq.induct)
  case 1
  then show ?case by simp
next
  case (2 x xs)
  then have "filter (\<lambda>y. y \<noteq> x) xs = xs" by (auto intro: filter_True)
  then show ?case using 2 by simp
qed


section \<open>What a render leaves\<close>

text \<open>
  \<^verbatim>\<open>render\<close> normalises the strengths before it reads the state, and every handler
  that changes the strengths or the segments ends with a call of it. After a render the
  array of strengths is distinct, free of \<open>NaN\<close> and in the order of the sort, and the
  tablets of every segment are keyed by it, so that a further \<open>normalizeStrengths\<close>
  changes no segment.
\<close>

lemmas alloc_eval = allocateTablets_def allocate_step_def Math_max_def js_sub_def js_inf_def Let_def fl_eval

lemma js_or_undefined_not_NaN: "js_or_undefined v (Fin 0) \<noteq> NaN"
  by (auto simp: js_or_undefined_def js_or_def falsy_def split: option.split)

lemma nextTablets_map:
  "distinct U \<Longrightarrow> nextTablets U old = map (\<lambda>s. (s, js_or_undefined (map_of old s) (Fin 0))) U"
  using foldl_update_fresh [of U "[]" "\<lambda>s. js_or_undefined (map_of old s) (Fin 0)"]
  by (simp add: nextTablets_def)

lemma nextTablets_idem:
  assumes "distinct U"
  shows "nextTablets U (nextTablets U old) = nextTablets U old"
proof -
  define al where "al = nextTablets U old"
  have al: "al = map (\<lambda>s. (s, js_or_undefined (map_of old s) (Fin 0))) U"
    unfolding al_def by (rule nextTablets_map [OF assms])
  have k: "map fst al = U" by (simp add: al comp_def)
  have "NaN \<notin> snd ` set al"
    using js_or_undefined_not_NaN by (auto simp: al) metis
  then have "nextTablets (map fst al) al = al"
    using assms by (intro nextTablets_keyed) (simp_all add: k)
  then have "nextTablets U al = al" by (simp only: k)
  then show ?thesis by (simp only: al_def)
qed

lemma normalised_array:
  fixes src :: "jsnum list"
  defines "U \<equiv> array_sort (\<lambda>a b. js_sub b a) (uniq (filter (\<lambda>v. v \<noteq> NaN) src))"
  shows "distinct U" and "NaN \<notin> set U" and "ordered U"
    and "array_sort (\<lambda>a b. js_sub b a) (uniq (filter (\<lambda>v. v \<noteq> NaN) U)) = U"
proof -
  show d: "distinct U" unfolding U_def by (intro array_sort_distinct uniq_distinct)
  show n: "NaN \<notin> set U" by (simp add: U_def array_sort_set uniq_set)
  have "NaN \<notin> set (uniq (filter (\<lambda>v. v \<noteq> NaN) src))" by (simp add: uniq_set)
  then show o: "ordered U" unfolding U_def by (rule array_sort_ordered)
  have "filter (\<lambda>v. v \<noteq> NaN) U = U" using n by (intro filter_True) auto
  then show "array_sort (\<lambda>a b. js_sub b a) (uniq (filter (\<lambda>v. v \<noteq> NaN) U)) = U"
    by (simp add: uniq_id [OF d] array_sort_id [OF o])
qed

lemma normalizeStrengths_rendered:
  assumes "arrays g = arrays (render g0)"
    and "strengths (state g) = strengths (state (render g0))"
    and "segments (state g) = segments (state (render g0))"
  shows "segments (state (normalizeStrengths g)) = segments (state g)"
proof -
  define src where "src = arrays g0 ! strengths (state g0)"
  define U where "U = array_sort (\<lambda>a b. js_sub b a) (uniq (filter (\<lambda>v. v \<noteq> NaN) src))"
  have U: "arrays (render g0) ! strengths (state (render g0)) = U"
    by (simp add: render_def normalizeStrengths_strengths U_def src_def)
  have dU: "distinct U" unfolding U_def by (rule normalised_array(1))
  have U': "arrays (normalizeStrengths g) ! strengths (state (normalizeStrengths g)) = U"
    unfolding normalizeStrengths_strengths assms(1,2) U
    unfolding U_def by (rule normalised_array(4))
  have segs: "segments (state g) =
                map (\<lambda>segment. segment\<lparr>tablets := nextTablets U (tablets segment)\<rparr>) (segments (state g0))"
    unfolding assms(3) render_def normalizeStrengths_segments [of g0]
    using U by (simp add: render_def)
  have "segments (state (normalizeStrengths g)) =
          map (\<lambda>segment. segment\<lparr>tablets := nextTablets U (tablets segment)\<rparr>) (segments (state g))"
    using normalizeStrengths_segments [of g] by (simp add: U')
  also have "\<dots> = segments (state g)"
    unfolding segs by (simp add: nextTablets_idem [OF dU])
  finally show ?thesis .
qed


section \<open>The allocator at a dose of zero\<close>

lemma fl_zero: "fl 0 = Fin 0"
  by (simp add: fl_def)

lemma allocate_step_zero_dose:
  "s \<noteq> 0 \<Longrightarrow> allocate_step (tabs, Fin 0) (Fin s) = (AList.update (Fin s) (Fin 0) tabs, Fin 0)"
  by (simp add: allocate_step_def Let_def fl_zero Math_max_def js_sub_def)

lemma allocate_fold_zero_dose:
  "0 \<notin> set S \<Longrightarrow> \<forall>p\<in>set tabs. snd p = Fin 0 \<Longrightarrow>
   snd (foldl allocate_step (tabs, Fin 0) (map Fin S)) = Fin 0
   \<and> (\<forall>p\<in>set (fst (foldl allocate_step (tabs, Fin 0) (map Fin S))). snd p = Fin 0)
   \<and> fst ` set (fst (foldl allocate_step (tabs, Fin 0) (map Fin S))) = fst ` set tabs \<union> Fin ` set S"
proof (induction S arbitrary: tabs)
  case Nil
  then show ?case by simp
next
  case (Cons s S)
  have s: "s \<noteq> 0" and S: "0 \<notin> set S" using Cons.prems(1) by auto
  have "\<forall>p\<in>set (AList.update (Fin s) (Fin 0) tabs). snd p = Fin 0"
    using set_update_subset [of "Fin s" "Fin 0" tabs] Cons.prems(2) by auto
  from Cons.IH [OF S this] show ?case
    by (simp add: allocate_step_zero_dose [OF s] dom_update)
qed


section \<open>A sequence of no step\<close>

lemma generate_zero_steps:
  assumes "Math_max (Fin 0) (js_or (startDose (auto (state g))) (Fin 0)) = Fin 0"
  shows "fst (auto_steps (normalizeStrengths g)) = []"
    and "segments (state (generateAutoSchedule g)) = segments (state (normalizeStrengths g))"
    and "lastRemainder (auto (state (generateAutoSchedule g))) = None"
proof -
  have steps: "auto_steps (normalizeStrengths g) = ([], None, segmentId (normalizeStrengths g))"
    using assms by (simp add: auto_steps_def Let_def normalizeStrengths_auto taper_loop_stop)
  then show none: "fst (auto_steps (normalizeStrengths g)) = []" by simp
  show "segments (state (generateAutoSchedule g)) = segments (state (normalizeStrengths g))"
    by (simp add: generate_segments none)
  show "lastRemainder (auto (state (generateAutoSchedule g))) = None"
    by (simp add: generate_auto steps)
qed


section \<open>Claims on the allocator\<close>

text \<open>
  Claim C1, as stated: for every dose \<open>D \<ge> 0\<close> and every list of strengths, the sum of
  strength times count over the returned tablets, plus the remainder, is within 0.01 mg
  of \<open>D\<close>. It fails on three descending, distinct, positive strengths (1537/512,
  309/1024 and 11/512 mg, all binary64 values): each of the three roundings of
  \<^verbatim>\<open>remaining\<close> to two decimals drops up to 0.005 mg. The counts are 3, 3 and 3.5, the
  tablets add up to 9.986328125 mg, the remainder is 0, and 0.013671875 mg of the 10 mg
  requested are in neither.
\<close>

theorem allocate_conservation_counterexample:
  "allocateTablets (Fin 10) [Fin 3.001953125, Fin 0.3017578125, Fin 0.021484375] =
     ([(Fin 3.001953125, Fin 3), (Fin 0.3017578125, Fin 3), (Fin 0.021484375, Fin 3.5)], Fin 0)
   \<and> \<not> \<bar>(3.001953125 * 3 + 0.3017578125 * 3 + 0.021484375 * 3.5) + 0 - 10\<bar> \<le> (0.01 :: real)"
  by (simp add: alloc_eval)

text \<open>
  Claim C1, amended: for every dose \<open>D\<close> between 0 and 1000000 mg and every list \<open>S\<close> of
  at most 1000 distinct strengths, each between 0.01 and 1000 mg, \<open>allocateTablets\<close>
  returns finite counts and a finite remainder, and the sum of strength times count over
  the returned tablets (\<open>tot_fin\<close>, the sum in the reals), plus the remainder, is within
  0.005001 mg times the number of strengths of \<open>D\<close>. The bound is 0.005 mg for each
  rounding of \<^verbatim>\<open>remaining\<close> to two decimals, and 0.000001 mg for the binary64 roundings
  of the quotient, the product, the difference and the two operations of the rounding to
  two decimals. All arithmetic is the rounded arithmetic of \<open>fl\<close>.
\<close>

theorem allocate_conservation_rounding:
  assumes "0 \<le> D" and "D \<le> 1000000" and "length S \<le> 1000"
    and "\<forall>s\<in>set S. 1 / 100 \<le> s \<and> s \<le> 1000" and "distinct S"
  shows "\<exists>t r. allocateTablets (Fin D) (map Fin S) = (map emb t, Fin r)
           \<and> \<bar>tot_fin t + r - D\<bar> \<le> real (length S) * (5001 / 1000000)"
  using allocateTablets_bounded [OF assms(1-4)] assms(5) by blast

theorem allocate_conservation_rounding_witness:
  "(0 :: real) \<le> 27 \<and> (27 :: real) \<le> 1000000 \<and> length [25, 5 :: real] \<le> 1000
   \<and> distinct [25, 5 :: real]
   \<and> (\<exists>t r. allocateTablets (Fin 27) (map Fin [25, 5]) = (map emb t, Fin r)
           \<and> \<bar>tot_fin t + r - 27\<bar> \<le> real (length [25, 5 :: real]) * (5001 / 1000000))"
  using allocate_conservation_rounding [of 27 "[25, 5]"] by simp

text \<open>
  Claim C2, as stated: the tablets returned never add up to more than the requested dose,
  which the claim takes to be the same as a remainder that is never negative. A request
  of 0.99609375 mg (255/256, a binary64 value) with strengths 1 mg and 0.5 mg leaves
  0.49609375 mg after half a 1 mg tablet; that is rounded up to 0.50, which pays for one
  0.5 mg tablet. The tablets add up to 1 mg, more than the dose requested, and the
  remainder is 0.
\<close>

theorem allocate_overshoot_counterexample:
  "allocateTablets (Fin 0.99609375) [Fin 1, Fin 0.5] = ([(Fin 1, Fin 0.5), (Fin 0.5, Fin 1)], Fin 0)
   \<and> \<not> 1 * 0.5 + 0.5 * 1 \<le> (0.99609375 :: real)"
  by (simp add: alloc_eval)

text \<open>
  Claim C2, amended: for every dose \<open>D\<close> between 0 and 1000000 mg and every list \<open>S\<close> of
  at most 1000 strengths, each between 0.01 and 1000 mg, the remainder returned is finite
  and not negative, and the tablets returned add up to at most \<open>D\<close> plus 0.005001 mg
  times the number of strengths.
\<close>

theorem allocate_remainder_nonneg:
  assumes "0 \<le> D" and "D \<le> 1000000" and "length S \<le> 1000"
    and "\<forall>s\<in>set S. 1 / 100 \<le> s \<and> s \<le> 1000"
  shows "\<exists>t r. allocateTablets (Fin D) (map Fin S) = (map emb t, Fin r) \<and> 0 \<le> r
           \<and> tot_fin t \<le> D + real (length S) * (5001 / 1000000)"
proof -
  from allocateTablets_bounded [OF assms]
  obtain t r where "allocateTablets (Fin D) (map Fin S) = (map emb t, Fin r)" and "0 \<le> r"
    and "tot_fin t + r \<le> D + real (length S) * (5001 / 1000000)" by blast
  moreover from this have "tot_fin t \<le> D + real (length S) * (5001 / 1000000)" by linarith
  ultimately show ?thesis by blast
qed

theorem allocate_remainder_nonneg_witness:
  "(0 :: real) \<le> 0.99609375 \<and> (0.99609375 :: real) \<le> 1000000 \<and> length [1, 0.5 :: real] \<le> 1000
   \<and> (\<exists>t r. allocateTablets (Fin 0.99609375) (map Fin [1, 0.5]) = (map emb t, Fin r) \<and> 0 \<le> r
           \<and> tot_fin t \<le> 0.99609375 + real (length [1, 0.5 :: real]) * (5001 / 1000000))"
  using allocate_remainder_nonneg [of "0.99609375" "[1, 0.5]"] by simp

text \<open>
  Claim C7, as stated: for every dose and every list of strengths, each count returned is
  at least 0 and a multiple of 0.5. For a dose of \<open>2 ^ 1023\<close> (a binary64 value) and the
  strength 0.25, the quotient \<^verbatim>\<open>remaining / strength\<close> overflows: the count recorded is
  \<open>Infinity\<close>, which is no number of tablets, and the remainder is \<open>-Infinity\<close>.
\<close>

theorem allocate_counts_counterexample:
  "allocateTablets (Fin (2 ^ 1023)) [Fin 0.25] = ([(Fin 0.25, PInf)], NInf)"
proof -
  have "(2 :: real) ^ 1024 \<le> 2 ^ 1023 / 0.25" by simp
  then have "fl (2 ^ 1023 / 0.25) = PInf" by (rule fl_overflow)
  then have "js_div (Fin (2 ^ 1023)) (Fin 0.25) = PInf" by simp
  then show ?thesis
    unfolding allocateTablets_def allocate_step_def Let_def
    by (simp add: Math_max_def js_sub_def js_inf_def)
qed

text \<open>
  Claim C7, amended: for every dose and every list of strengths, each count returned is
  half a natural number (at least 0 and a multiple of 0.5), or \<open>Infinity\<close>, or \<open>NaN\<close>;
  and for every dose between 0 and 1000000 mg and every list of at most 1000 strengths,
  each between 0.01 and 1000 mg, each count returned is half a natural number.
\<close>

theorem allocate_counts_half_tablets:
  "(\<forall>p\<in>set (fst (allocateTablets d ss)).
       snd p = NaN \<or> snd p = PInf \<or> (\<exists>n::nat. snd p = Fin (real n / 2)))
   \<and> (0 \<le> D \<and> D \<le> 1000000 \<and> length S \<le> 1000 \<and> (\<forall>s\<in>set S. 1 / 100 \<le> s \<and> s \<le> 1000)
        \<longrightarrow> (\<forall>p\<in>set (fst (allocateTablets (Fin D) (map Fin S))). \<exists>n::nat. snd p = Fin (real n / 2)))"
proof (intro conjI impI)
  show "\<forall>p\<in>set (fst (allocateTablets d ss)).
          snd p = NaN \<or> snd p = PInf \<or> (\<exists>n::nat. snd p = Fin (real n / 2))"
    using allocate_fold_shape [of "([], d)" ss]
    by (simp add: allocateTablets_def count_shape_def)
next
  assume a: "0 \<le> D \<and> D \<le> 1000000 \<and> length S \<le> 1000 \<and> (\<forall>s\<in>set S. 1 / 100 \<le> s \<and> s \<le> 1000)"
  then obtain t r where "allocateTablets (Fin D) (map Fin S) = (map emb t, Fin r)"
    and "\<forall>p\<in>set t. (\<exists>n::nat. snd p = real n / 2) \<and> 0 \<le> fst p * snd p"
    using allocateTablets_bounded [of D S] by blast
  then show "\<forall>p\<in>set (fst (allocateTablets (Fin D) (map Fin S))). \<exists>n::nat. snd p = Fin (real n / 2)"
    by (auto simp: emb_def)
qed

theorem allocate_counts_half_tablets_witness:
  "(0 :: real) \<le> 32.5 \<and> (32.5 :: real) \<le> 1000000 \<and> length [25, 5 :: real] \<le> 1000
   \<and> fst (allocateTablets (Fin 32.5) (map Fin [25, 5])) = [(Fin 25, Fin 1), (Fin 5, Fin 1.5)]
   \<and> (\<exists>n::nat. Fin 1 = Fin (real n / 2)) \<and> (\<exists>n::nat. Fin 1.5 = Fin (real n / 2))"
proof -
  have "fst (allocateTablets (Fin 32.5) (map Fin [25, 5])) = [(Fin 25, Fin 1), (Fin 5, Fin 1.5)]"
    by (simp add: alloc_eval)
  then show ?thesis
    using allocate_counts_half_tablets [of "Fin 32.5" "map Fin [25, 5]" "32.5" "[25, 5]"] by simp
qed

text \<open>
  Claim C8: for a requested dose of 0 and any list of strengths, the remainder is 0, every
  count is 0 and the keys of the tablets are the strengths; for an empty list of
  strengths and any dose, the tablets are empty and the remainder is the dose. The
  strengths of the specification are positive numbers of milligrams, and the only handler
  that adds a strength of the user's admits it only if it is greater than 0; the theorem
  asks less, that no strength is zero. The model has no exception: the function returns a
  value on every input.
\<close>

theorem allocate_edge_cases:
  assumes "0 \<notin> set S"
  shows "snd (allocateTablets (Fin 0) (map Fin S)) = Fin 0
         \<and> (\<forall>p\<in>set (fst (allocateTablets (Fin 0) (map Fin S))). snd p = Fin 0)
         \<and> fst ` set (fst (allocateTablets (Fin 0) (map Fin S))) = Fin ` set S
         \<and> allocateTablets d [] = ([], d)"
proof -
  from allocate_fold_zero_dose [OF assms, of "[]"]
  show ?thesis by (simp add: allocateTablets_def)
qed

theorem allocate_edge_cases_witness:
  "(0 :: real) \<notin> set [25, 5]
   \<and> snd (allocateTablets (Fin 0) (map Fin [25, 5])) = Fin 0
   \<and> map snd (fst (allocateTablets (Fin 0) (map Fin [25, 5]))) = [Fin 0, Fin 0]
   \<and> fst ` set (fst (allocateTablets (Fin 0) (map Fin [25, 5]))) = Fin ` set [25, 5]
   \<and> allocateTablets (Fin 30) [] = ([], Fin 30)"
proof -
  have "allocateTablets (Fin 0) (map Fin [25, 5]) = ([(Fin 25, Fin 0), (Fin 5, Fin 0)], Fin 0)"
    by (simp add: alloc_eval)
  then show ?thesis
    using allocate_edge_cases [of "[25, 5]" "Fin 30"] by simp
qed

section \<open>Claims on the sequencer\<close>

text \<open>
  Claim C3, as stated: with start dose 15, steps of 3 days, reduction by 5 mg and strengths
  10 and 5, the three steps take the tablets \<open>{10: 1, 5: 1}\<close>, \<open>{10: 1, 5: 0}\<close> and
  \<open>{10: 0, 5: 1}\<close>. The allocator counts half tablets and serves the largest strength
  first: for 15 mg it takes one and a half tablets of 10 mg, not one of each.
\<close>

theorem generate_example_3_counterexample:
  "map_of (tablets (hd (segments (state (generateAutoSchedule
      \<lparr>arrays = [[Fin 10, Fin 5]], segmentId = 1,
        state = \<lparr>medication = Prednisolone, useDates = True, startDate = [], strengths = 0,
          customStrength = [], segments = [],
          auto = \<lparr>startDose = Fin 15, stepDays = Fin 3, mode = Mg, stepMg = Fin 5,
                   stepStrength = Fin 5, stepTablets = Fin 1, lastRemainder = None\<rparr>,
          handoutReady = False\<rparr>\<rparr>))))) (Fin 10) = Some (Fin 1.5)
   \<and> Fin 1.5 \<noteq> Fin 1"
  by (simp add: generateAutoSchedule_def auto_steps_def normalizeStrengths_def array_sort_def decrement_def
      allocateTablets_def allocate_step_def Math_max_def js_sub_def js_or_def falsy_def createSegment_def 
      taper_loop_step taper_loop_stop Let_def fl_eval)

text \<open>
  Claim C3, amended: with start dose 15, steps of 3 days, reduction by 5 mg and strengths
  10 and 5, \<open>generateAutoSchedule\<close> stores exactly three steps of 3 days each, with the
  tablets \<open>{10: 1.5, 5: 0}\<close> for dose 15, \<open>{10: 1, 5: 0}\<close> for dose 10 and
  \<open>{10: 0.5, 5: 0}\<close> for dose 5; whatever the other fields of the state.
\<close>

theorem generate_example_3:
  "map (\<lambda>s. (days s, tablets s)) (segments (state (generateAutoSchedule
      \<lparr>arrays = [[Fin 10, Fin 5]], segmentId = n,
        state = st\<lparr>strengths := 0,
          auto := \<lparr>startDose = Fin 15, stepDays = Fin 3, mode = Mg, stepMg = Fin 5,
                    stepStrength = x, stepTablets = y, lastRemainder = z\<rparr>\<rparr>\<rparr>)))
   = [(Fin 3, [(Fin 10, Fin 1.5), (Fin 5, Fin 0)]),
      (Fin 3, [(Fin 10, Fin 1), (Fin 5, Fin 0)]),
      (Fin 3, [(Fin 10, Fin 0.5), (Fin 5, Fin 0)])]"
  by (simp add: generateAutoSchedule_def auto_steps_def normalizeStrengths_def array_sort_def decrement_def
      allocateTablets_def allocate_step_def Math_max_def js_sub_def js_or_def falsy_def createSegment_def 
      taper_loop_step taper_loop_stop Let_def fl_eval)

text \<open>
  Claim C4: in the reduction by tablet count, the two factors of the decrement are clamped
  to be at least 0. The source clamps in the branch of the reduction by milligram
  (\<^verbatim>\<open>Math.max(0, ...)\<close>, line 198) and not in this one (lines 200 to 202), where
  \<^verbatim>\<open>|| 0\<close> only replaces \<open>NaN\<close>: with 5 mg tablets and a count of \<open>-1\<close> the
  decrement is \<open>-5\<close>.
\<close>

theorem decrement_negative_by_tablet_count:
  "decrement \<lparr>startDose = Fin 10, stepDays = Fin 3, mode = Tablet, stepMg = Fin 5,
      stepStrength = Fin 5, stepTablets = Fin (- 1), lastRemainder = None\<rparr> = Fin (- 5)"
  by (simp add: decrement_def js_or_def falsy_def fl_eval)

text \<open>
  Claim C5: the local list \<^verbatim>\<open>segments\<close> that \<open>generateAutoSchedule\<close> builds
  (\<open>fst (auto_steps (normalizeStrengths g))\<close>) has at most 200 steps, for every state
  \<open>g\<close>; and with start dose 10, a reduction of 0 mg and the single strength 5, the call
  stores exactly 200 steps, all with the same days, frequency and tablets: two tablets of
  5 mg, the allocation of 10 mg. The steps differ in their \<^verbatim>\<open>id\<close> only, a field the
  specification does not have.
\<close>

theorem generate_at_most_200_steps:
  "length (fst (auto_steps (normalizeStrengths g))) \<le> 200
   \<and> map (\<lambda>s. (days s, frequency s, tablets s)) (segments (state (generateAutoSchedule
      \<lparr>arrays = [[Fin 5]], segmentId = n,
        state = st\<lparr>strengths := 0,
          auto := \<lparr>startDose = Fin 10, stepDays = d, mode = Mg, stepMg = Fin 0,
                    stepStrength = x, stepTablets = y, lastRemainder = z\<rparr>\<rparr>\<rparr>)))
     = replicate 200 (Math_max (Fin 1) (js_or d (Fin 1)), ''Once daily (od)'', [(Fin 5, Fin 2)])"
proof
  show "length (fst (auto_steps (normalizeStrengths g))) \<le> 200"
    using taper_loop_length [where segs = "[]" and guard = 0]
    by (simp add: auto_steps_def Let_def)
next
  define G where "G = \<lparr>arrays = [[Fin 5]], segmentId = n,
        state = st\<lparr>strengths := 0,
          auto := \<lparr>startDose = Fin 10, stepDays = d, mode = Mg, stepMg = Fin 0,
                    stepStrength = x, stepTablets = y, lastRemainder = z\<rparr>\<rparr>\<rparr>"
  define sd where "sd = Math_max (Fin 1) (js_or d (Fin 1))"
  have steps: "auto_steps (normalizeStrengths G) = taper_loop [Fin 5] sd (Fin 0) (Fin 10) 0 n [] None"
    by (simp add: G_def sd_def auto_steps_def normalizeStrengths_def array_sort_def decrement_def
        Math_max_def js_or_def falsy_def Let_def fl_eval)
  have alloc: "allocateTablets (Fin 10) [Fin 5] = ([(Fin 5, Fin 2)], Fin 0)"
    by (simp add: alloc_eval)
  have "map (\<lambda>s. (days s, frequency s, tablets s)) (fst (auto_steps (normalizeStrengths G))) =
          replicate 200 (sd, ''Once daily (od)'', [(Fin 5, Fin 2)])"
    unfolding steps
    using taper_loop_constant_dose [of "Fin 10" "Fin 0" "[Fin 5]" sd 0 n "[]" None]
    by (simp add: alloc Math_max_def js_sub_def fl_eval)
  moreover from this have "fst (auto_steps (normalizeStrengths G)) \<noteq> []" by auto
  ultimately show "map (\<lambda>s. (days s, frequency s, tablets s)) (segments (state (generateAutoSchedule
      \<lparr>arrays = [[Fin 5]], segmentId = n,
        state = st\<lparr>strengths := 0,
          auto := \<lparr>startDose = Fin 10, stepDays = d, mode = Mg, stepMg = Fin 0,
                    stepStrength = x, stepTablets = y, lastRemainder = z\<rparr>\<rparr>\<rparr>)))
     = replicate 200 (Math_max (Fin 1) (js_or d (Fin 1)), ''Once daily (od)'', [(Fin 5, Fin 2)])"
    unfolding G_def [symmetric] sd_def [symmetric] by (simp add: generate_segments)
qed

text \<open>
  Claim C6: the dose allocated never increases from one step to the next. The unclamped
  decrement of claim C4 breaks it: with start dose 10, 5 mg tablets and a count of \<open>-1\<close>
  the first three steps stored are allocated for 10, 15 and 20 mg.
\<close>

theorem generate_dose_increases:
  "map (\<lambda>s. totalDose (tablets s)) (take 3 (segments (state (generateAutoSchedule
      \<lparr>arrays = [[Fin 5]], segmentId = 1,
        state = \<lparr>medication = Prednisolone, useDates = True, startDate = [], strengths = 0,
          customStrength = [], segments = [],
          auto = \<lparr>startDose = Fin 10, stepDays = Fin 3, mode = Tablet, stepMg = Fin 5,
                   stepStrength = Fin 5, stepTablets = Fin (- 1), lastRemainder = None\<rparr>,
          handoutReady = False\<rparr>\<rparr>))))
   = [Fin 10, Fin 15, Fin 20]"
proof -
  define G where "G = \<lparr>arrays = [[Fin 5]], segmentId = 1,
        state = \<lparr>medication = Prednisolone, useDates = True, startDate = [], strengths = 0,
          customStrength = [], segments = [],
          auto = \<lparr>startDose = Fin 10, stepDays = Fin 3, mode = Tablet, stepMg = Fin 5,
                   stepStrength = Fin 5, stepTablets = Fin (- 1), lastRemainder = None\<rparr>,
          handoutReady = False\<rparr>\<rparr>"
  define three where "three =
     [\<lparr>id' = Suc 0, days = Fin 3, frequency = ''Once daily (od)'', tablets = [(Fin 5, Fin 2)]\<rparr>,
      \<lparr>id' = Suc (Suc 0), days = Fin 3, frequency = ''Once daily (od)'', tablets = [(Fin 5, Fin 3)]\<rparr>,
      \<lparr>id' = Suc (Suc (Suc 0)), days = Fin 3, frequency = ''Once daily (od)'', tablets = [(Fin 5, Fin 4)]\<rparr>]"
  define final where "final = taper_loop [Fin 5] (Fin 3) (Fin (- 5)) (Fin 25)
     (Suc (Suc (Suc 0))) (Suc (Suc (Suc (Suc 0)))) three (Some (Fin 0))"
  have a10: "allocateTablets (Fin 10) [Fin 5] = ([(Fin 5, Fin 2)], Fin 0)"
    and a15: "allocateTablets (Fin 15) [Fin 5] = ([(Fin 5, Fin 3)], Fin 0)"
    and a20: "allocateTablets (Fin 20) [Fin 5] = ([(Fin 5, Fin 4)], Fin 0)"
    by (simp_all add: alloc_eval)
  have "auto_steps (normalizeStrengths G) =
          taper_loop [Fin 5] (Fin 3) (Fin (- 5)) (Fin 10) 0 (Suc 0) [] None"
    by (simp add: G_def auto_steps_def normalizeStrengths_def array_sort_def decrement_def
        Math_max_def js_sub_def js_or_def falsy_def Let_def fl_eval)
  also have "\<dots> = taper_loop [Fin 5] (Fin 3) (Fin (- 5)) (Fin 15) (Suc 0) (Suc (Suc 0))
                      (take 1 three) (Some (Fin 0))"
    by (simp add: taper_loop_step [of "Fin 10" 0] a10 Math_max_def js_sub_def three_def fl_eval)
  also have "\<dots> = taper_loop [Fin 5] (Fin 3) (Fin (- 5)) (Fin 20) (Suc (Suc 0)) (Suc (Suc (Suc 0)))
                      (take 2 three) (Some (Fin 0))"
    by (simp add: taper_loop_step [of "Fin 15" "Suc 0"] a15 Math_max_def js_sub_def three_def fl_eval)
  also have "\<dots> = final"
    by (simp add: taper_loop_step [of "Fin 20" "Suc (Suc 0)"] a20 Math_max_def js_sub_def
        three_def final_def fl_eval)
  finally have "auto_steps (normalizeStrengths G) = final" .
  moreover have "take (length three) (fst final) = three"
    unfolding final_def by (rule taper_loop_prefix)
  moreover have "length three = 3"
    by (simp add: three_def)
  ultimately have t: "take 3 (fst (auto_steps (normalizeStrengths G))) = three"
    by simp
  then have "fst (auto_steps (normalizeStrengths G)) \<noteq> []" by (auto simp: three_def)
  then have "take 3 (segments (state (generateAutoSchedule G))) = three"
    using t by (simp add: generate_segments)
  then show ?thesis
    unfolding G_def [symmetric]
    by (simp add: three_def totalDose_def js_or_def falsy_def fl_eval)
qed

text \<open>
  Claim C9: \<open>generateAutoSchedule\<close> leaves the six fields of the configuration as they
  were, and every array of numbers that existed before the call has the contents it had:
  \<open>normalizeStrengths\<close> sorts a fresh array and makes \<^verbatim>\<open>state.strengths\<close> refer to it,
  the array the caller supplied is only read. \<open>allocateTablets\<close> reads the array it is
  given and returns tablets and a remainder, nothing else. The record \<^verbatim>\<open>AutoConfig\<close> of
  the source has a seventh field, \<^verbatim>\<open>lastRemainder\<close>, which the specification counts
  with the result of the call and not with the configuration; the call writes it
  (\<open>generate_auto\<close>).
\<close>

theorem generate_keeps_config_and_arrays:
  "startDose (auto (state (generateAutoSchedule g))) = startDose (auto (state g))
   \<and> stepDays (auto (state (generateAutoSchedule g))) = stepDays (auto (state g))
   \<and> mode (auto (state (generateAutoSchedule g))) = mode (auto (state g))
   \<and> stepMg (auto (state (generateAutoSchedule g))) = stepMg (auto (state g))
   \<and> stepStrength (auto (state (generateAutoSchedule g))) = stepStrength (auto (state g))
   \<and> stepTablets (auto (state (generateAutoSchedule g))) = stepTablets (auto (state g))
   \<and> take (length (arrays g)) (arrays (generateAutoSchedule g)) = arrays g"
  by (simp add: generate_auto generate_arrays normalizeStrengths_keeps_arrays)

text \<open>
  Claim C10: when the clamped start dose is 0 the loop builds no step, the segments of the
  state are left as they were and the last remainder becomes null (\<open>None\<close>). The state
  at the click is the state that the last \<^verbatim>\<open>render\<close> left (\<open>render gp\<close>, for any state
  \<open>gp\<close> before it), changed only by the handlers that do not render: those write
  \<^verbatim>\<open>customStrength\<close>, fields of \<^verbatim>\<open>auto\<close> and \<^verbatim>\<open>handoutReady\<close>. On such a state the
  \<open>normalizeStrengths\<close> that opens \<open>generateAutoSchedule\<close> changes no segment
  (\<open>normalizeStrengths_rendered\<close>), so the segments after the call are the segments
  before it.
\<close>

theorem generate_zero_steps_keeps_segments:
  assumes "Math_max (Fin 0) (js_or (startDose a) (Fin 0)) = Fin 0"
  shows "segments (state (generateAutoSchedule
            ((render gp)\<lparr>state := (state (render gp))\<lparr>customStrength := c, auto := a, handoutReady := h\<rparr>\<rparr>)))
           = segments (state (render gp))
    \<and> lastRemainder (auto (state (generateAutoSchedule
            ((render gp)\<lparr>state := (state (render gp))\<lparr>customStrength := c, auto := a, handoutReady := h\<rparr>\<rparr>))))
           = None
    \<and> fst (auto_steps (normalizeStrengths
            ((render gp)\<lparr>state := (state (render gp))\<lparr>customStrength := c, auto := a, handoutReady := h\<rparr>\<rparr>)))
           = []"
proof -
  define g where
    "g = (render gp)\<lparr>state := (state (render gp))\<lparr>customStrength := c, auto := a, handoutReady := h\<rparr>\<rparr>"
  have z: "Math_max (Fin 0) (js_or (startDose (auto (state g))) (Fin 0)) = Fin 0"
    using assms by (simp add: g_def)
  have "segments (state (normalizeStrengths g)) = segments (state g)"
    by (rule normalizeStrengths_rendered [of g gp]) (simp_all add: g_def)
  moreover have "segments (state g) = segments (state (render gp))" by (simp add: g_def)
  ultimately show ?thesis
    using generate_zero_steps [OF z] unfolding g_def [symmetric] by simp
qed

theorem generate_zero_steps_keeps_segments_witness:
  "Math_max (Fin 0) (js_or (Fin 0) (Fin 0)) = Fin 0
   \<and> segments (state (render
        \<lparr>arrays = [[Fin 5, Fin 25, Fin 5]], segmentId = 2,
          state = \<lparr>medication = Prednisolone, useDates = True, startDate = [], strengths = 0,
            customStrength = [],
            segments = [\<lparr>id' = 1, days = Fin 3, frequency = ''Once daily (od)'',
                          tablets = [(Fin 25, Fin 1), (Fin 10, Fin 2)]\<rparr>],
            auto = \<lparr>startDose = Fin 30, stepDays = Fin 3, mode = Mg, stepMg = Fin 5,
                     stepStrength = Fin 5, stepTablets = Fin 1, lastRemainder = Some (Fin 2)\<rparr>,
            handoutReady = True\<rparr>\<rparr>))
       = [\<lparr>id' = 1, days = Fin 3, frequency = ''Once daily (od)'',
             tablets = [(Fin 25, Fin 1), (Fin 5, Fin 0)]\<rparr>]
   \<and> segments (state (generateAutoSchedule ((render
        \<lparr>arrays = [[Fin 5, Fin 25, Fin 5]], segmentId = 2,
          state = \<lparr>medication = Prednisolone, useDates = True, startDate = [], strengths = 0,
            customStrength = [],
            segments = [\<lparr>id' = 1, days = Fin 3, frequency = ''Once daily (od)'',
                          tablets = [(Fin 25, Fin 1), (Fin 10, Fin 2)]\<rparr>],
            auto = \<lparr>startDose = Fin 30, stepDays = Fin 3, mode = Mg, stepMg = Fin 5,
                     stepStrength = Fin 5, stepTablets = Fin 1, lastRemainder = Some (Fin 2)\<rparr>,
            handoutReady = True\<rparr>\<rparr>)
         \<lparr>state := (state (render
        \<lparr>arrays = [[Fin 5, Fin 25, Fin 5]], segmentId = 2,
          state = \<lparr>medication = Prednisolone, useDates = True, startDate = [], strengths = 0,
            customStrength = [],
            segments = [\<lparr>id' = 1, days = Fin 3, frequency = ''Once daily (od)'',
                          tablets = [(Fin 25, Fin 1), (Fin 10, Fin 2)]\<rparr>],
            auto = \<lparr>startDose = Fin 30, stepDays = Fin 3, mode = Mg, stepMg = Fin 5,
                     stepStrength = Fin 5, stepTablets = Fin 1, lastRemainder = Some (Fin 2)\<rparr>,
            handoutReady = True\<rparr>\<rparr>))
           \<lparr>customStrength := ''7'',
             auto := \<lparr>startDose = Fin 0, stepDays = Fin 3, mode = Mg, stepMg = Fin 5,
                       stepStrength = Fin 5, stepTablets = Fin 1, lastRemainder = Some (Fin 2)\<rparr>,
             handoutReady := False\<rparr>\<rparr>)))
       = [\<lparr>id' = 1, days = Fin 3, frequency = ''Once daily (od)'',
             tablets = [(Fin 25, Fin 1), (Fin 5, Fin 0)]\<rparr>]"
proof -
  define G0 where "G0 = \<lparr>arrays = [[Fin 5, Fin 25, Fin 5]], segmentId = 2,
          state = \<lparr>medication = Prednisolone, useDates = True, startDate = [], strengths = 0,
            customStrength = [],
            segments = [\<lparr>id' = 1, days = Fin 3, frequency = ''Once daily (od)'',
                          tablets = [(Fin 25, Fin 1), (Fin 10, Fin 2)]\<rparr>],
            auto = \<lparr>startDose = Fin 30, stepDays = Fin 3, mode = Mg, stepMg = Fin 5,
                     stepStrength = Fin 5, stepTablets = Fin 1, lastRemainder = Some (Fin 2)\<rparr>,
            handoutReady = True\<rparr>\<rparr>"
  define A where "A = \<lparr>startDose = Fin 0, stepDays = Fin 3, mode = Mg, stepMg = Fin 5,
                       stepStrength = Fin 5, stepTablets = Fin 1, lastRemainder = Some (Fin 2)\<rparr>"
  have z: "Math_max (Fin 0) (js_or (startDose A) (Fin 0)) = Fin 0"
    by (simp add: A_def Math_max_def js_or_def falsy_def)
  have r: "segments (state (render G0)) =
             [\<lparr>id' = 1, days = Fin 3, frequency = ''Once daily (od)'',
                tablets = [(Fin 25, Fin 1), (Fin 5, Fin 0)]\<rparr>]"
    by (simp add: G0_def render_def normalizeStrengths_def array_sort_def nextTablets_def
        js_or_undefined_def js_or_def falsy_def js_sub_def Let_def fl_eval)
  from generate_zero_steps_keeps_segments [where a = A and gp = G0 and c = "''7''" and h = False, OF z]
  show ?thesis
    unfolding G0_def [symmetric] A_def [symmetric]
    by (simp add: r Math_max_def js_or_def falsy_def)
qed

end
